theory Spec2Isabelle
  imports Main
begin

section \<open>JavaScript strings\<close>

text \<open>
  A JavaScript string is a sequence of UTF-16 code units.  Every character the preview
  panel names lies in the Basic Multilingual Plane, so one character is one code unit,
  written here as its number (an integer from 0 to 65535).  ASCII literals are written through \<open>ascii\<close>.
\<close>

type_synonym jsstring = "int list"

definition ascii :: "string \<Rightarrow> jsstring" where
  "ascii s = map of_char s"

text \<open>White space and line terminators: what \<open>\s\<close> matches and what \<open>trim()\<close> strips.\<close>

definition is_space :: "int \<Rightarrow> bool" where
  "is_space c \<longleftrightarrow>
     c = 9 \<or> c = 10 \<or> c = 11 \<or> c = 12 \<or> c = 13 \<or> c = 32 \<or> c = 160 \<or> c = 5760 \<or>
     (8192 \<le> c \<and> c \<le> 8202) \<or> c = 8232 \<or> c = 8233 \<or> c = 8239 \<or> c = 8287 \<or>
     c = 12288 \<or> c = 65279"

text \<open>\<open>\d\<close>.\<close>

definition is_digit :: "int \<Rightarrow> bool" where
  "is_digit c \<longleftrightarrow> 48 \<le> c \<and> c \<le> 57"

text \<open>The dot of a regular expression without the \<open>s\<close> flag: anything but a line terminator.\<close>

definition is_dot :: "int \<Rightarrow> bool" where
  "is_dot c \<longleftrightarrow> c \<noteq> 10 \<and> c \<noteq> 13 \<and> c \<noteq> 8232 \<and> c \<noteq> 8233"

definition trim :: "jsstring \<Rightarrow> jsstring" where
  "trim s = rev (dropWhile is_space (rev (dropWhile is_space s)))"

text \<open>\<open>s.includes(sub)\<close>.\<close>

fun includes_js :: "jsstring \<Rightarrow> jsstring \<Rightarrow> bool" where
  "includes_js [] sub = (sub = [])"
| "includes_js (c # s) sub = (take (length sub) (c # s) = sub \<or> includes_js s sub)"

text \<open>\<open>s.split(sep)\<close> for a separator of one code unit; the result is never empty.\<close>

fun split :: "int \<Rightarrow> jsstring \<Rightarrow> jsstring list" where
  "split sep [] = [[]]"
| "split sep (c # s) =
     (if c = sep then [] # split sep s
      else (case split sep s of [] \<Rightarrow> [[c]] | x # xs \<Rightarrow> (c # x) # xs))"

text \<open>The decimal numeral of a template literal \<open>${n}\<close> for a natural number.\<close>

fun decimal :: "nat \<Rightarrow> jsstring" where
  "decimal n = (if n < 10 then [48 + int n] else decimal (n div 10) @ [48 + int (n mod 10)])"

declare decimal.simps [simp del]

text \<open>
  \<open>toUpperCase()\<close> on ASCII letters.  The panel calls it on a captured type code only,
  which consists of ASCII letters; other code units are left as they are.
\<close>

definition toUpperCase :: "jsstring \<Rightarrow> jsstring" where
  "toUpperCase s = map (\<lambda>c. if 97 \<le> c \<and> c \<le> 122 then c - 32 else c) s"

section \<open>Regular expressions\<close>

text \<open>
  The patterns of the panel, as syntax trees, and a backtracking matcher that returns every
  way a pattern matches at a position, in the order in which the JavaScript matcher tries
  them (greedy quantifiers first try one more repetition, a lazy one first tries to stop,
  an alternative tries its left branch first).  The first element of the list is
  therefore the match JavaScript reports.
\<close>

datatype re =
    Eps
  | Cls "int \<Rightarrow> bool"
  | Bol
  | Eol
  | Seq re re
  | Alt re re
  | Opt re
  | Star re
  | Plus re
  | LazyStar re
  | Group nat re

text \<open>A cursor: the groups captured so far, the index in the input, the rest of the input.\<close>

type_synonym cursor = "(nat \<times> jsstring) list \<times> nat \<times> jsstring"

definition advanced :: "cursor \<Rightarrow> cursor \<Rightarrow> bool" where
  "advanced c c' \<longleftrightarrow> fst (snd c) < fst (snd c')"

text \<open>
  Repetition.  After the minimum number of repetitions a repetition that consumes nothing
  is rejected, so at most as many repetitions as there are code units left are possible:
  the bound \<open>n\<close> is never what stops the recursion when it starts at that number.
\<close>

fun greedy :: "(cursor \<Rightarrow> cursor list) \<Rightarrow> nat \<Rightarrow> cursor \<Rightarrow> cursor list" where
  "greedy f 0 c = [c]"
| "greedy f (Suc n) c = concat (map (greedy f n) (filter (advanced c) (f c))) @ [c]"

fun lazy :: "(cursor \<Rightarrow> cursor list) \<Rightarrow> nat \<Rightarrow> cursor \<Rightarrow> cursor list" where
  "lazy f 0 c = [c]"
| "lazy f (Suc n) c = c # concat (map (lazy f n) (filter (advanced c) (f c)))"

definition left :: "cursor \<Rightarrow> nat" where
  "left c = length (snd (snd c))"

primrec rmatch :: "re \<Rightarrow> cursor \<Rightarrow> cursor list" where
  "rmatch Eps = (\<lambda>c. [c])"
| "rmatch (Cls p) = (\<lambda>c. case c of (cs, i, s) \<Rightarrow>
     (case s of [] \<Rightarrow> [] | x # s' \<Rightarrow> if p x then [(cs, Suc i, s')] else []))"
| "rmatch Bol = (\<lambda>c. if fst (snd c) = 0 then [c] else [])"
| "rmatch Eol = (\<lambda>c. if snd (snd c) = [] then [c] else [])"
| "rmatch (Seq a b) = (\<lambda>c. concat (map (rmatch b) (rmatch a c)))"
| "rmatch (Alt a b) = (\<lambda>c. rmatch a c @ rmatch b c)"
| "rmatch (Opt a) = (\<lambda>c. filter (advanced c) (rmatch a c) @ [c])"
| "rmatch (Star a) = (\<lambda>c. greedy (rmatch a) (left c) c)"
| "rmatch (Plus a) = (\<lambda>c. concat (map (\<lambda>c'. greedy (rmatch a) (left c') c') (rmatch a c)))"
| "rmatch (LazyStar a) = (\<lambda>c. lazy (rmatch a) (left c) c)"
| "rmatch (Group n a) = (\<lambda>c. case c of (cs, i, s) \<Rightarrow>
     map (\<lambda>c'. case c' of (cs', j, s') \<Rightarrow> ((n, take (j - i) s) # cs', j, s'))
       (rmatch a (cs, i, s)))"

text \<open>Building blocks of the patterns.\<close>

definition chr :: "int \<Rightarrow> re" where
  "chr x = Cls (\<lambda>c. c = x)"

text \<open>
  An ASCII capital letter under the \<open>i\<close> flag (without the \<open>u\<close> flag): the letter or its
  small form.  No other code unit of the panel's patterns has a case variant.
\<close>

definition chr_i :: "int \<Rightarrow> re" where
  "chr_i x = Cls (\<lambda>c. c = x \<or> c = x + 32)"

definition one_of :: "int list \<Rightarrow> re" where
  "one_of xs = Cls (\<lambda>c. c \<in> set xs)"

fun seqs :: "re list \<Rightarrow> re" where
  "seqs [] = Eps"
| "seqs [r] = r"
| "seqs (r # rs) = Seq r (seqs rs)"

fun alts :: "re list \<Rightarrow> re" where
  "alts [] = Eps"
| "alts [r] = r"
| "alts (r # rs) = Alt r (alts rs)"

text \<open>
  \<open>RegExp.prototype.exec\<close> of a pattern without the \<open>g\<close> flag, and so
  \<open>s.match(pattern)\<close>: the first match at the leftmost index where there is one.  The
  result is the index where the match starts, the matched text and the captured groups.
\<close>

fun exec_from :: "re \<Rightarrow> nat \<Rightarrow> jsstring \<Rightarrow> (nat \<times> jsstring \<times> (nat \<times> jsstring) list) option" where
  "exec_from r i s =
     (case rmatch r ([], i, s) of
        (cs, j, s') # _ \<Rightarrow> Some (i, take (j - i) s, cs)
      | [] \<Rightarrow> (case s of [] \<Rightarrow> None | x # t \<Rightarrow> exec_from r (Suc i) t))"

declare exec_from.simps [simp del]

definition match :: "jsstring \<Rightarrow> re \<Rightarrow> (nat \<Rightarrow> jsstring option) option" where
  "match s r = (case exec_from r 0 s of None \<Rightarrow> None | Some (i, w, cs) \<Rightarrow> Some (map_of cs))"

text \<open>\<open>s.replace(pattern, repl)\<close> for a pattern without the \<open>g\<close> flag: the first match only.\<close>

definition replace :: "jsstring \<Rightarrow> re \<Rightarrow> jsstring \<Rightarrow> jsstring" where
  "replace s r repl =
     (case exec_from r 0 s of
        None \<Rightarrow> s
      | Some (i, w, cs) \<Rightarrow> take i s @ repl @ drop (i + length w) s)"

text \<open>
  \<open>s.replace(pattern, repl)\<close> for a pattern with the \<open>g\<close> flag: every match, from left to
  right, the search resuming where the last match ended (one code unit further after an
  empty match).  \<open>replace_from r repl i s\<close> is the result for the rest \<open>s\<close> of the input
  that starts at index \<open>i\<close>.
\<close>

function replace_from :: "re \<Rightarrow> jsstring \<Rightarrow> nat \<Rightarrow> jsstring \<Rightarrow> jsstring" where
  "replace_from r repl i s =
     (case rmatch r ([], i, s) of
        [] \<Rightarrow> (case s of [] \<Rightarrow> [] | x # t \<Rightarrow> x # replace_from r repl (Suc i) t)
      | c # _ \<Rightarrow>
          if i < fst (snd c) \<and> s \<noteq> []
          then repl @ replace_from r repl (fst (snd c)) (drop (fst (snd c) - i) s)
          else repl @ (case s of [] \<Rightarrow> [] | x # t \<Rightarrow> x # replace_from r repl (Suc i) t))"
  by pat_completeness auto
termination
  by (relation "measure (\<lambda>(r, repl, i, s). length s)") (auto simp: neq_Nil_conv)

declare replace_from.simps [simp del]

definition replace_all :: "jsstring \<Rightarrow> re \<Rightarrow> jsstring \<Rightarrow> jsstring" where
  "replace_all s r repl = replace_from r repl 0 s"

section \<open>The preview panel: data\<close>

text \<open>
  The interfaces \<open>Question\<close> and \<open>QuestionGroup\<close> of \<open>PreviewPanel.tsx\<close>.  The options of a
  question are strings, \<open>options: string[]\<close>.  The records leave the type \<open>'o\<close> of an element
  of the options array open, because there is one place where the array comes to hold
  something else than a string: \<open>updateOption\<close> with an index beyond its length leaves holes
  in it.
\<close>

record 'o question_of =
  q_id :: jsstring
  q_number :: jsstring
  q_text :: jsstring
  q_options :: "'o list"
  q_type :: jsstring
  q_isOpen :: bool

type_synonym question = "jsstring question_of"

record 'o questionGroup_of =
  startNum :: nat
  endNum :: nat
  g_questions :: "'o question_of list"
  isExpanded :: bool

type_synonym questionGroup = "jsstring questionGroup_of"

section \<open>parseSurveyDraft\<close>

text \<open>The alternatives \<open>SC|MA|OQ|RS|DC|RK|MG\<close> under the \<open>i\<close> flag.\<close>

definition word_i :: "string \<Rightarrow> re" where
  "word_i w = seqs (map (\<lambda>c. chr_i (of_char c)) w)"

definition type_codes :: re where
  "type_codes = alts [word_i ''SC'', word_i ''MA'', word_i ''OQ'', word_i ''RS'',
                      word_i ''DC'', word_i ''RK'', word_i ''MG'']"

text \<open>\<open>(?:\(\d+\))?\<close>, the repeat count.\<close>

definition repeat_count :: re where
  "repeat_count = Opt (seqs [chr 40, Plus (Cls is_digit), chr 41])"

text \<open>\<open>/\((SC|MA|OQ|RS|DC|RK|MG)(?:\(\d+\))?\)/i\<close>\<close>

definition TYPE_CODE_PATTERN :: re where
  "TYPE_CODE_PATTERN = seqs [chr 40, Group 1 type_codes, repeat_count, chr 41]"

text \<open>\<open>/\((?:SC|MA|OQ|RS|DC|RK|MG)(?:\(\d+\))?\)/gi\<close>, the pattern of the two \<open>replace\<close> calls.\<close>

definition type_code_token :: re where
  "type_code_token = seqs [chr 40, type_codes, repeat_count, chr 41]"

text \<open>\<open>(\d+(?:-\d+)?)\<close>, the first group of both question patterns.\<close>

definition number_group :: re where
  "number_group = Group 1 (Seq (Plus (Cls is_digit)) (Opt (Seq (chr 45) (Plus (Cls is_digit)))))"

text \<open>
  \<open>/^\*?\*?<U+BB38><U+D56D>\s*(\d+(?:-\d+)?)[.:]?\*?\*?\s*(.+)/i\<close> and
  \<open>/^Q(\d+(?:-\d+)?)[.:]?\s*(.+)/i\<close>, in this order.
\<close>

definition QUESTION_KEYWORD_PATTERNS :: "re list" where
  "QUESTION_KEYWORD_PATTERNS =
     [seqs [Bol, Opt (chr 42), Opt (chr 42), chr 47928, chr 54637, Star (Cls is_space),
            number_group, Opt (one_of [46, 58]), Opt (chr 42), Opt (chr 42),
            Star (Cls is_space), Group 2 (Plus (Cls is_dot))],
      seqs [Bol, chr_i 81, number_group, Opt (one_of [46, 58]),
            Star (Cls is_space), Group 2 (Plus (Cls is_dot))]]"

text \<open>The circled numerals one to twelve, U+2460 to U+246B.\<close>

definition circled :: "int list" where
  "circled = [9312, 9313, 9314, 9315, 9316, 9317, 9318, 9319, 9320, 9321, 9322, 9323]"

text \<open>
  The five \<open>optionPatterns\<close>: a circled numeral; U+24DE; \<open>(\<close>digits\<open>)\<close>; a dash or U+2022
  and white space; U+25CB or U+25CF.
\<close>

definition optionPatterns :: "re list" where
  "optionPatterns =
     [seqs [Bol, one_of circled, Star (Cls is_space), Group 1 (Plus (Cls is_dot))],
      seqs [Bol, one_of [9438], Star (Cls is_space), Group 1 (Plus (Cls is_dot))],
      seqs [Bol, chr 40, Plus (Cls is_digit), chr 41, Star (Cls is_space),
            Group 1 (Plus (Cls is_dot))],
      seqs [Bol, one_of [45, 8226], Plus (Cls is_space), Group 1 (Plus (Cls is_dot))],
      seqs [Bol, one_of [9675, 9679], Star (Cls is_space), Group 1 (Plus (Cls is_dot))]]"

text \<open>\<open>/^(\d{1,2})[.)]\s+(.+)/\<close>\<close>

definition numPattern :: re where
  "numPattern = seqs [Bol, Group 1 (Seq (Cls is_digit) (Opt (Cls is_digit))), one_of [46, 41],
                      Plus (Cls is_space), Group 2 (Plus (Cls is_dot))]"

text \<open>\<open>/^-\s*[<U+2460>-<U+2469>]?\s*(.+)/\<close> (the class lists the ten glyphs one by one).\<close>

definition dashPattern :: re where
  "dashPattern = seqs [Bol, chr 45, Star (Cls is_space), Opt (one_of (take 10 circled)),
                       Star (Cls is_space), Group 1 (Plus (Cls is_dot))]"

text \<open>\<open>/^[<the twelve circled numerals><U+25CB><U+25CF>]\s*/\<close>, also the serializer's \<open>numberPattern\<close>.\<close>

definition numberPattern :: re where
  "numberPattern = seqs [Bol, one_of (circled @ [9675, 9679]), Star (Cls is_space)]"

text \<open>
  \<open>m[n]\<close> of a match result.  Every group of the panel's patterns takes part in every
  match of its pattern, so the case of a group that did not is not reached.
\<close>

definition group :: "(nat \<Rightarrow> jsstring option) \<Rightarrow> nat \<Rightarrow> jsstring" where
  "group m n = (case m n of None \<Rightarrow> [] | Some w \<Rightarrow> w)"

text \<open>The loop over \<open>QUESTION_KEYWORD_PATTERNS\<close>: the first pattern that matches.\<close>

fun first_match :: "re list \<Rightarrow> jsstring \<Rightarrow> (nat \<Rightarrow> jsstring option) option" where
  "first_match [] line = None"
| "first_match (pattern # ps) line =
     (case match line pattern of Some m \<Rightarrow> Some m | None \<Rightarrow> first_match ps line)"

text \<open>The parser's variables: \<open>parsedQuestions\<close>, \<open>currentQuestion\<close>, \<open>questionId\<close>.\<close>

record parser =
  parsedQuestions :: "question list"
  currentQuestion :: "question option"
  questionId :: nat

text \<open>U+C8FC U+AD00 U+C2DD, the keyword of an open question.\<close>

definition open_keyword :: jsstring where
  "open_keyword = [51452, 44288, 49885]"

text \<open>A line that starts a question (lines 185 to 209).\<close>

definition start_question :: "parser \<Rightarrow> jsstring \<Rightarrow> (nat \<Rightarrow> jsstring option) \<Rightarrow> parser" where
  "start_question p line questionMatch =
     (let flushed = (case currentQuestion p of
                       None \<Rightarrow> parsedQuestions p
                     | Some q \<Rightarrow> parsedQuestions p @ [q]);
          type = (case match line TYPE_CODE_PATTERN of
                    Some typeMatch \<Rightarrow> toUpperCase (group typeMatch 1)
                  | None \<Rightarrow> ascii ''SC'');
          questionText =
            trim (replace_all
                    (replace_all
                       (replace_all (group questionMatch 2) (Seq (chr 42) (chr 42)) [])
                       (seqs [chr 91, LazyStar (Cls is_dot), chr 93]) [])
                    type_code_token [])
      in \<lparr> parsedQuestions = flushed,
           currentQuestion = Some \<lparr> q_id = ascii ''q_'' @ decimal (questionId p),
                                     q_number = group questionMatch 1,
                                     q_text = questionText,
                                     q_options = [],
                                     q_type = type,
                                     q_isOpen = (type = ascii ''OQ'' \<or> includes_js line open_keyword) \<rparr>,
           questionId = questionId p + 1 \<rparr>)"

text \<open>The text of an option on a line that starts no question (lines 213 to 238).\<close>

fun first_capture :: "re list \<Rightarrow> jsstring \<Rightarrow> jsstring" where
  "first_capture [] line = []"
| "first_capture (pattern # ps) line =
     (case match line pattern of Some m \<Rightarrow> group m 1 | None \<Rightarrow> first_capture ps line)"

definition option_text :: "jsstring \<Rightarrow> jsstring" where
  "option_text line =
     (let optionText = first_capture optionPatterns line;
          optionText = (if optionText = []
                        then (case match line numPattern of
                                Some numMatch \<Rightarrow> group numMatch 2 | None \<Rightarrow> optionText)
                        else optionText);
          optionText = (if optionText = []
                        then (case match line dashPattern of
                                Some dashMatch \<Rightarrow> group dashMatch 1 | None \<Rightarrow> optionText)
                        else optionText)
      in optionText)"

text \<open>The cleaning of an option (lines 242 to 246); U+2192 is the arrow.\<close>

definition clean_option :: "jsstring \<Rightarrow> jsstring" where
  "clean_option optionText =
     trim (replace
             (replace_all (case split 8594 optionText of [] \<Rightarrow> [] | x # _ \<Rightarrow> x)
                type_code_token [])
             numberPattern [])"

text \<open>One turn of the loop over the lines.\<close>

definition parse_line :: "parser \<Rightarrow> jsstring \<Rightarrow> parser" where
  "parse_line p raw =
     (let line = trim raw in
      if line = [] then p
      else (case first_match QUESTION_KEYWORD_PATTERNS line of
              Some questionMatch \<Rightarrow> start_question p line questionMatch
            | None \<Rightarrow>
                (case currentQuestion p of
                   None \<Rightarrow> p
                 | Some q \<Rightarrow>
                     (let optionText = option_text line in
                      if optionText = [] then p
                      else (let optionText = clean_option optionText in
                            if 0 < length optionText
                            then p\<lparr>currentQuestion := Some (q\<lparr>q_options := q_options q @ [optionText]\<rparr>)\<rparr>
                            else p)))))"

fun parse_lines :: "parser \<Rightarrow> jsstring list \<Rightarrow> parser" where
  "parse_lines p [] = p"
| "parse_lines p (raw # lines) = parse_lines (parse_line p raw) lines"

text \<open>The text of a draft that looks like a printed array of quoted strings (lines 141 to 147).\<close>

definition processDraft :: "jsstring \<Rightarrow> jsstring" where
  "processDraft draft =
     (if includes_js draft [39, 44, 32, 39] \<or> includes_js draft [34, 44, 32, 34]
      then replace_all
             (replace_all
                (replace_all
                   (replace_all draft (Alt (Seq Bol (chr 91)) (Seq (chr 93) Eol)) [])
                   (Alt (Seq Bol (one_of [39, 34])) (Seq (one_of [39, 34]) Eol)) [])
                (seqs [one_of [39, 34], Star (Cls is_space), chr 44, Star (Cls is_space),
                       one_of [39, 34]]) [10])
             (Seq (chr 92) (chr 110)) [10]
      else draft)"

text \<open>The loop over the lines and the final flush (lines 149 to 257).\<close>

definition assemble :: "jsstring list \<Rightarrow> question list" where
  "assemble lines =
     (let p = parse_lines \<lparr> parsedQuestions = [], currentQuestion = None, questionId = 0 \<rparr> lines
      in case currentQuestion p of
           None \<Rightarrow> parsedQuestions p
         | Some q \<Rightarrow> parsedQuestions p @ [q])"

definition parseSurveyDraft :: "jsstring \<Rightarrow> question list" where
  "parseSurveyDraft draft =
     (if draft = [] then []
      else if length (trim draft) = 0 then []
      else assemble (split 10 (processDraft draft)))"

section \<open>groupQuestions\<close>

text \<open>\<open>qs.slice(a, b)\<close> for \<open>0 \<le> a \<le> b\<close>; an end beyond the array is cut to its length.\<close>

definition slice :: "'a list \<Rightarrow> nat \<Rightarrow> nat \<Rightarrow> 'a list" where
  "slice qs a b = take (b - a) (drop a qs)"

definition groupSize :: nat where
  "groupSize = 10"

text \<open>The \<open>for\<close> loop of \<open>groupQuestions\<close>, from index \<open>i\<close> with the groups pushed so far.\<close>

function group_loop ::
  "'o question_of list \<Rightarrow> nat \<Rightarrow> 'o questionGroup_of list \<Rightarrow> 'o questionGroup_of list" where
  "group_loop qs i groups =
     (if i < length qs
      then group_loop qs (i + groupSize)
             (groups @ [\<lparr> startNum = i + 1,
                          endNum = min (i + groupSize) (length qs),
                          g_questions = slice qs i (i + groupSize),
                          isExpanded = (i = 0) \<rparr>])
      else groups)"
  by pat_completeness auto
termination
  by (relation "measure (\<lambda>(qs, i, groups). length qs - i)") (auto simp: groupSize_def)

declare group_loop.simps [simp del]

definition groupQuestions :: "'o question_of list \<Rightarrow> 'o questionGroup_of list" where
  "groupQuestions qs = group_loop qs 0 []"

section \<open>questionsToText\<close>

definition circledNumbers :: "jsstring list" where
  "circledNumbers = map (\<lambda>c. [c]) circled"

text \<open>The inner \<open>forEach\<close> over the options, from index \<open>optIdx\<close>, appending to \<open>text\<close>.\<close>

fun options_to_text :: "jsstring \<Rightarrow> nat \<Rightarrow> jsstring list \<Rightarrow> jsstring" where
  "options_to_text text optIdx [] = text"
| "options_to_text text optIdx (opt # opts) =
     (let cleanOpt = trim (replace opt numberPattern []);
          num = (if optIdx < 12 then circledNumbers ! optIdx
                 else ascii ''('' @ decimal (optIdx + 1) @ ascii '')'')
      in options_to_text (text @ ascii ''   '' @ num @ ascii '' '' @ cleanOpt @ [10])
           (Suc optIdx) opts)"

text \<open>The placeholder line of an open question: three spaces, \<open>[\<close>, U+C8FC U+AD00 U+C2DD,
  a space, U+C751 U+B2F5, \<open>]\<close>, a line feed.\<close>

definition open_placeholder :: jsstring where
  "open_placeholder = ascii ''   ['' @ [51452, 44288, 49885, 32, 51025, 45813] @ ascii '']'' @ [10]"

text \<open>The outer \<open>forEach\<close> over the questions, from index \<open>idx\<close>, appending to \<open>text\<close>.\<close>

fun questions_to_text :: "jsstring \<Rightarrow> nat \<Rightarrow> question list \<Rightarrow> jsstring" where
  "questions_to_text text idx [] = text"
| "questions_to_text text idx (q # qs) =
     (let text = text @ decimal (idx + 1) @ ascii ''. '' @ q_text q @ ascii '' ('' @ q_type q
                   @ ascii '')'' @ [10];
          text = (if \<not> q_isOpen q \<and> 0 < length (q_options q)
                  then options_to_text text 0 (q_options q)
                  else if q_isOpen q then text @ open_placeholder
                  else text);
          text = text @ [10]
      in questions_to_text text (Suc idx) qs)"

definition questionsToText :: "question list \<Rightarrow> jsstring" where
  "questionsToText qs = questions_to_text [] 0 qs"

section \<open>The panel's state and its operations\<close>

text \<open>
  What leaves the panel: the calls \<open>updateField(sessionId, field, value)\<close> and
  \<open>exportSurvey(sessionId, format)\<close> of the API module, and the alerts shown to the user.
\<close>

datatype format = Docx | Hwpx

datatype alert = NoSession | SaveFailed | ExportFailed

datatype event =
    UpdateField jsstring jsstring jsstring
  | ExportSurvey jsstring format
  | Alert alert

text \<open>
  The API module is not part of the panel.  Whether an awaited call resolves or rejects is
  decided by the outside world: a \<open>network\<close> says, for the history of events that ends with
  the call just issued, whether its promise resolves (\<open>True\<close>) or rejects.
\<close>

type_synonym network = "event list \<Rightarrow> bool"

text \<open>
  The state the panel reads and writes: \<open>sessionId\<close> and the two fields of \<open>surveyState\<close>
  in the store, the component's own state variables, and the events so far.
\<close>

record 'o panel_of =
  sessionId :: "jsstring option"
  survey_draft :: "jsstring option"
  final_survey :: "jsstring option"
  questions :: "'o question_of list"
  questionGroups :: "'o questionGroup_of list"
  hasLocalChanges :: bool
  isSaving :: bool
  isExporting :: bool
  events :: "event list"

type_synonym panel = "jsstring panel_of"

text \<open>\<open>!sessionId\<close>: \<open>null\<close> or the empty string.\<close>

definition no_session :: "panel \<Rightarrow> bool" where
  "no_session s \<longleftrightarrow> (case sessionId s of None \<Rightarrow> True | Some sid \<Rightarrow> sid = [])"

definition session :: "panel \<Rightarrow> jsstring" where
  "session s = (case sessionId s of None \<Rightarrow> [] | Some sid \<Rightarrow> sid)"

subsection \<open>The four edits\<close>

text \<open>Both views are mapped with the same function of a question.\<close>

definition map_views :: "(question \<Rightarrow> question) \<Rightarrow> panel \<Rightarrow> panel" where
  "map_views updateFn s =
     s\<lparr> questions := map updateFn (questions s),
        questionGroups :=
          map (\<lambda>g. g\<lparr>g_questions := map updateFn (g_questions g)\<rparr>) (questionGroups s),
        hasLocalChanges := True \<rparr>"

definition updateQuestionText :: "jsstring \<Rightarrow> jsstring \<Rightarrow> panel \<Rightarrow> panel" where
  "updateQuestionText qid newText =
     map_views (\<lambda>q. if q_id q = qid then q\<lparr>q_text := newText\<rparr> else q)"

text \<open>
  A slot of the options array that \<open>updateOption\<close> stores: a string, or a hole (\<open>None\<close>),
  an index of the array that has no element.
\<close>

type_synonym slot = "jsstring option"

text \<open>
  \<open>newOptions[optionIdx] = newText\<close>.  The assignment never fails.  An index inside the array
  replaces the element; an index from \<open>length\<close> on makes the array as long as the index
  asks, the new element last and holes between the old elements and the new one (none for
  the index \<open>length\<close>, which appends).  A negative index, and one from 4294967295 on, is no
  array index: the assignment sets a property of the array object and leaves its elements
  and its length as they are.
\<close>

definition assign_index :: "'a option list \<Rightarrow> int \<Rightarrow> 'a \<Rightarrow> 'a option list" where
  "assign_index xs i v =
     (if i < 0 \<or> 4294967295 \<le> i then xs
      else if nat i < length xs then xs[nat i := Some v]
      else xs @ replicate (nat i - length xs) None @ [Some v])"

text \<open>
  The \<open>updateFn\<close> of \<open>updateOption\<close>: the question with the given id gets the copy
  \<open>[...q.options]\<close> of its options with the assignment done, every other question is returned
  as it is (its options are the strings they were).
\<close>

definition updateOption_fn :: "jsstring \<Rightarrow> int \<Rightarrow> jsstring \<Rightarrow> question \<Rightarrow> slot question_of" where
  "updateOption_fn qid optionIdx newText q =
     \<lparr> q_id = q_id q, q_number = q_number q, q_text = q_text q,
       q_options = (if q_id q = qid
                    then assign_index (map Some (q_options q)) optionIdx newText
                    else map Some (q_options q)),
       q_type = q_type q, q_isOpen = q_isOpen q \<rparr>"

text \<open>A group with its questions mapped: \<open>{ ...g, questions: g.questions.map(updateFn) }\<close>.\<close>

definition map_group :: "('a question_of \<Rightarrow> 'b question_of) \<Rightarrow> 'a questionGroup_of \<Rightarrow> 'b questionGroup_of" where
  "map_group updateFn g =
     \<lparr> startNum = startNum g, endNum = endNum g,
       g_questions = map updateFn (g_questions g), isExpanded = isExpanded g \<rparr>"

text \<open>
  \<open>updateOption\<close> maps both views with its \<open>updateFn\<close> and sets the dirty flag, whatever
  the index is; nothing else of the state changes.
\<close>

definition updateOption :: "jsstring \<Rightarrow> int \<Rightarrow> jsstring \<Rightarrow> panel \<Rightarrow> slot panel_of" where
  "updateOption qid optionIdx newText s =
     (let updateFn = updateOption_fn qid optionIdx newText in
      \<lparr> sessionId = sessionId s, survey_draft = survey_draft s, final_survey = final_survey s,
        questions = map updateFn (questions s),
        questionGroups = map (map_group updateFn) (questionGroups s),
        hasLocalChanges = True,
        isSaving = isSaving s, isExporting = isExporting s, events = events s \<rparr>)"

text \<open>The placeholder of a new option: U+C0C8, a space, U+C120 U+D0DD U+C9C0.\<close>

definition new_option :: jsstring where
  "new_option = [49352, 32, 49440, 53469, 51648]"

definition addOption :: "jsstring \<Rightarrow> panel \<Rightarrow> panel" where
  "addOption qid =
     map_views (\<lambda>q. if q_id q = qid then q\<lparr>q_options := q_options q @ [new_option]\<rparr> else q)"

text \<open>\<open>options.filter((_, idx) => idx !== optionIdx)\<close>\<close>

definition filter_index :: "'a list \<Rightarrow> int \<Rightarrow> 'a list" where
  "filter_index xs optionIdx =
     map snd (filter (\<lambda>(idx, x). int idx \<noteq> optionIdx) (zip [0..<length xs] xs))"

definition removeOption :: "jsstring \<Rightarrow> int \<Rightarrow> panel \<Rightarrow> panel" where
  "removeOption qid optionIdx =
     map_views (\<lambda>q. if q_id q = qid
                     then q\<lparr>q_options := filter_index (q_options q) optionIdx\<rparr> else q)"

subsection \<open>Saving and exporting\<close>

text \<open>Issuing a call: it joins the events, and the network decides its outcome.\<close>

definition issue :: "event \<Rightarrow> panel \<Rightarrow> panel" where
  "issue e s = s\<lparr>events := events s @ [e]\<rparr>"

text \<open>The \<open>catch\<close> and \<open>finally\<close> blocks of \<open>saveChanges\<close>.\<close>

definition save_failed :: "panel \<Rightarrow> panel" where
  "save_failed s = (issue (Alert SaveFailed) s)\<lparr>isSaving := False\<rparr>"

definition saveChanges :: "network \<Rightarrow> panel \<Rightarrow> panel" where
  "saveChanges net s =
     (if no_session s \<or> \<not> hasLocalChanges s then s
      else (let s = s\<lparr>isSaving := True\<rparr>;
                newSurveyText = questionsToText (questions s);
                s = issue (UpdateField (session s) (ascii ''survey_draft'') newSurveyText) s
            in if \<not> net (events s) then save_failed s
               else (let s = issue (UpdateField (session s) (ascii ''final_survey'') newSurveyText) s
                     in if \<not> net (events s) then save_failed s
                        else s\<lparr> survey_draft := Some newSurveyText,
                                final_survey := Some newSurveyText,
                                hasLocalChanges := False,
                                isSaving := False \<rparr>)))"




section \<open>Auxiliary definitions for the proofs\<close>

text \<open>The group that \<open>groupQuestions\<close> pushes at index \<open>i\<close>.\<close>

definition page :: "'o question_of list \<Rightarrow> nat \<Rightarrow> 'o questionGroup_of" where
  "page qs i = \<lparr> startNum = i + 1, endNum = min (i + groupSize) (length qs),
                 g_questions = slice qs i (i + groupSize), isExpanded = (i = 0) \<rparr>"

text \<open>A network on which every call rejects, and one on which every call resolves.\<close>

definition offline :: network where
  "offline history = False"


text \<open>A panel with one question of two options, unsaved edits and a session.\<close>

definition example_question :: question where
  "example_question = \<lparr> q_id = ascii ''q_0'', q_number = ascii ''1'', q_text = ascii ''Pick'',
                          q_options = [ascii ''a'', ascii ''b''], q_type = ascii ''SC'',
                          q_isOpen = False \<rparr>"

definition example_panel :: panel where
  "example_panel = \<lparr> sessionId = Some (ascii ''s1''), survey_draft = None, final_survey = None,
                       questions = [example_question],
                       questionGroups = [\<lparr> startNum = 1, endNum = 1,
                                           g_questions = [example_question],
                                           isExpanded = True \<rparr>],
                       hasLocalChanges = True, isSaving = False, isExporting = False,
                       events = [] \<rparr>"

text \<open>The two calls of \<open>saveChanges\<close>.\<close>

definition draft_call :: "panel \<Rightarrow> event" where
  "draft_call s = UpdateField (session s) (ascii ''survey_draft'') (questionsToText (questions s))"

definition final_call :: "panel \<Rightarrow> event" where
  "final_call s = UpdateField (session s) (ascii ''final_survey'') (questionsToText (questions s))"

text \<open>
  The grouped view is the partition of the flat sequence into windows of ten (the
  \<open>isExpanded\<close> flags are free: \<open>toggleGroup\<close> changes them).
\<close>

definition ten_wise :: "'o panel_of \<Rightarrow> bool" where
  "ten_wise s \<longleftrightarrow>
     map (\<lambda>g. (startNum g, endNum g, g_questions g)) (questionGroups s) =
     map (\<lambda>g. (startNum g, endNum g, g_questions g)) (groupQuestions (questions s))"

text \<open>A raw line at which the parser starts a question (lines 172 to 185).\<close>

definition starts_question :: "jsstring \<Rightarrow> bool" where
  "starts_question raw \<longleftrightarrow>
     trim raw \<noteq> [] \<and> first_match QUESTION_KEYWORD_PATTERNS (trim raw) \<noteq> None"

text \<open>A pattern without capturing groups.\<close>

fun groupfree :: "re \<Rightarrow> bool" where
  "groupfree (Group n r) = False"
| "groupfree (Seq a b) = (groupfree a \<and> groupfree b)"
| "groupfree (Alt a b) = (groupfree a \<and> groupfree b)"
| "groupfree (Opt a) = groupfree a"
| "groupfree (Star a) = groupfree a"
| "groupfree (Plus a) = groupfree a"
| "groupfree (LazyStar a) = groupfree a"
| "groupfree r = True"

text \<open>The type codes of the three type patterns.\<close>

definition type_code_set :: "jsstring set" where
  "type_code_set = {ascii ''SC'', ascii ''MA'', ascii ''OQ'', ascii ''RS'', ascii ''DC'',
                    ascii ''RK'', ascii ''MG''}"

text \<open>A draft of seven questions, one of each type code.\<close>

definition seven_types_draft :: jsstring where
  "seven_types_draft =
     ascii ''Q1. a (SC)'' @ [10] @ ascii ''Q2. b (MA)'' @ [10] @ ascii ''Q3. c (OQ)'' @ [10] @
     ascii ''Q4. d (RS)'' @ [10] @ ascii ''Q5. e (DC)'' @ [10] @ ascii ''Q6. f (RK)'' @ [10] @
     ascii ''Q7. g (MG)''"

text \<open>
  The type code of a question line in the words of the specification, to compare the
  parser with: scan the line for the first token that is \<open>(\<close>, one of the seven codes in
  capital or small letters, optionally a repeat count \<open>(\<close>digits\<open>)\<close>, and \<open>)\<close>; the type is
  the code of that token in capitals, and \<open>SC\<close> when the line has no such token.
\<close>

definition closes_token :: "jsstring \<Rightarrow> bool" where
  "closes_token rest \<longleftrightarrow>
     (case rest of
        [] \<Rightarrow> False
      | c # r \<Rightarrow> c = 41 \<or>
                 (c = 40 \<and> takeWhile is_digit r \<noteq> [] \<and> take 2 (dropWhile is_digit r) = [41, 41]))"

fun token_here :: "jsstring \<Rightarrow> jsstring option" where
  "token_here (p # a # b # rest) =
     (if p = 40 \<and> toUpperCase [a, b] \<in> type_code_set \<and> closes_token rest
      then Some (toUpperCase [a, b]) else None)"
| "token_here s = None"

fun scan_type_code :: "jsstring \<Rightarrow> jsstring option" where
  "scan_type_code [] = None"
| "scan_type_code (c # s) =
     (case token_here (c # s) of Some code \<Rightarrow> Some code | None \<Rightarrow> scan_type_code s)"

definition spec_type_code :: "jsstring \<Rightarrow> jsstring" where
  "spec_type_code line = (case scan_type_code line of Some code \<Rightarrow> code | None \<Rightarrow> ascii ''SC'')"

text \<open>The type codes of the questions the parser holds, flushed ones first.\<close>

definition held_types :: "parser \<Rightarrow> jsstring list" where
  "held_types p =
     map q_type (parsedQuestions p @ (case currentQuestion p of None \<Rightarrow> [] | Some q \<Rightarrow> [q]))"

text \<open>
  A draft of four question lines: without a token, with a token in small letters and a
  repeat count, with two tokens, and with a token that is not closed before a good one;
  an option line with a token stands between the first two.
\<close>

definition mixed_types_draft :: jsstring where
  "mixed_types_draft =
     ascii ''Q1. a'' @ [10] @ ascii ''- x (MA)'' @ [10] @ ascii ''q2. b (rs(5))'' @ [10] @
     [47928, 54637] @ ascii '' 3. c (dc) (MA)'' @ [10] @ ascii ''Q4. d (MA(x)) (RK(12))''"

text \<open>Every question the parser holds has one of the type codes.\<close>

definition typed :: "parser \<Rightarrow> bool" where
  "typed p \<longleftrightarrow> (\<forall>q \<in> set (parsedQuestions p). q_type q \<in> type_code_set) \<and>
               (\<forall>q. currentQuestion p = Some q \<longrightarrow> q_type q \<in> type_code_set)"

text \<open>The line the serializer writes for the option at index \<open>i\<close>.\<close>

definition option_line :: "nat \<Rightarrow> jsstring \<Rightarrow> jsstring" where
  "option_line i opt =
     ascii ''   '' @ (if i < 12 then [9312 + int i] else ascii ''('' @ decimal (i + 1) @ ascii '')'')
       @ ascii '' '' @ trim (replace opt numberPattern []) @ [10]"

text \<open>The prefixes of thirteen options: the twelve circled numerals and \<open>(13)\<close>.\<close>

definition thirteen_prefixes :: "jsstring list" where
  "thirteen_prefixes = [[9312], [9313], [9314], [9315], [9316], [9317], [9318], [9319], [9320],
                        [9321], [9322], [9323], ascii ''(13)'']"

text \<open>A question that is not open and has thirteen options.\<close>

definition thirteen_options :: question where
  "thirteen_options = \<lparr> q_id = ascii ''q_0'', q_number = ascii ''1'', q_text = ascii ''Pick'',
       q_options = [ascii ''a'', ascii ''b'', ascii ''c'', ascii ''d'', ascii ''e'', ascii ''f'',
                    ascii ''g'', ascii ''h'', ascii ''i'', ascii ''j'', ascii ''k'', ascii ''l'',
                    ascii ''m''],
       q_type = ascii ''SC'', q_isOpen = False \<rparr>"

section \<open>Parsing, serializing and parsing again\<close>

text \<open>
  Claim C1: parsing a draft, serializing the questions and parsing the serialized text gives
  as many questions, each with as many options in the same order.

  The code does not do this.  The serializer writes the line of a question as
  \<open><position>. <text> (<type>)\<close>, and the parser starts a question only at a line that
  begins with the keyword U+BB38 U+D56D or with \<open>Q\<close>: a serialized question line starts no
  question.  For the draft of one question \<open>Q1. Pick (SC)\<close> with the two options
  \<open>a\<close> and \<open>b\<close> the parser finds one question, the serializer writes four lines, and the
  parser finds no question in them.
\<close>

theorem reparse_loses_questions:
  "length (parseSurveyDraft
       (ascii ''Q1. Pick (SC)'' @ [10, 9312] @ ascii '' a'' @ [10, 9313] @ ascii '' b'')) = 1
   \<and> questionsToText (parseSurveyDraft
       (ascii ''Q1. Pick (SC)'' @ [10, 9312] @ ascii '' a'' @ [10, 9313] @ ascii '' b''))
     = ascii ''1. Pick (SC)'' @ [10] @ ascii ''   '' @ [9312] @ ascii '' a'' @ [10]
       @ ascii ''   '' @ [9313] @ ascii '' b'' @ [10, 10]
   \<and> parseSurveyDraft (questionsToText (parseSurveyDraft
       (ascii ''Q1. Pick (SC)'' @ [10, 9312] @ ascii '' a'' @ [10, 9313] @ ascii '' b''))) = []"
  by code_simp

section \<open>The scenario of two questions\<close>

text \<open>
  Claim C2: the draft of the two lines \<open><U+BB38><U+D56D> 1. ...? (SC)\<close> and
  \<open><U+BB38><U+D56D> 2. ... (OQ)\<close>, the first followed by the option lines \<open><U+2460> <U+C608>\<close>
  and \<open><U+2461> <U+C544><U+B2C8><U+C624>\<close> and an empty line, parses to exactly two
  questions: the first of type \<open>SC\<close>, not open, with these two options in this order; the
  second of type \<open>OQ\<close>, open, without options.
\<close>

theorem parse_scenario:
  "map (\<lambda>q. (q_type q, q_isOpen q, q_options q))
     (parseSurveyDraft
        ([47928, 54637] @ ascii '' 1. '' @ [47564, 51313, 54616, 49901, 45768, 44620]
         @ ascii ''? (SC)'' @ [10]
         @ [9312, 32, 50696, 10]
         @ [9313, 32, 50500, 45768, 50724, 10]
         @ [10]
         @ [47928, 54637] @ ascii '' 2. ''
         @ [51032, 44204, 51012, 32, 47568, 54644, 51452, 49464, 50836] @ ascii '' (OQ)''))
   = [(ascii ''SC'', False, [[50696], [50500, 45768, 50724]]), (ascii ''OQ'', True, [])]"
  by code_simp

section \<open>The paginator\<close>

lemma ceil10_bounds:
  fixes n :: nat
  shows "10 * ((n + 9) div 10) \<le> n + 9" and "n + 9 < 10 * ((n + 9) div 10) + 10"
  using times_div_less_eq_dividend [of 10 "n + 9"] dividend_less_times_div [of 10 "n + 9"]
  by simp_all

lemma group_loop_step:
  "i < length qs \<Longrightarrow> group_loop qs i groups = group_loop qs (i + 10) (groups @ [page qs i])"
  by (subst group_loop.simps) (simp add: page_def groupSize_def)

lemma group_loop_stop: "\<not> i < length qs \<Longrightarrow> group_loop qs i groups = groups"
  by (subst group_loop.simps) simp

lemma group_loop_closed:
  "group_loop qs (10 * j) groups =
     groups @ map (\<lambda>k. page qs (10 * k)) [j..<(length qs + 9) div 10]"
proof (induction "length qs - 10 * j" arbitrary: j groups rule: less_induct)
  case less
  define m where "m = (length qs + 9) div 10"
  have b: "10 * m \<le> length qs + 9" "length qs + 9 < 10 * m + 10"
    unfolding m_def by (rule ceil10_bounds)+
  show ?case
  proof (cases "10 * j < length qs")
    case True
    then have jm: "j < m" using b by arith
    have dec: "length qs - 10 * Suc j < length qs - 10 * j" using True by arith
    have "group_loop qs (10 * j) groups = group_loop qs (10 * Suc j) (groups @ [page qs (10 * j)])"
      using group_loop_step [OF True, of groups] by (simp add: add.commute)
    also have "\<dots> = (groups @ [page qs (10 * j)]) @ map (\<lambda>k. page qs (10 * k)) [Suc j..<m]"
      unfolding m_def by (rule less [OF dec])
    also have "\<dots> = groups @ map (\<lambda>k. page qs (10 * k)) [j..<m]"
      using jm by (simp add: upt_conv_Cons)
    finally show ?thesis unfolding m_def .
  next
    case False
    then have "m \<le> j" using b by arith
    then show ?thesis
      using False unfolding m_def [symmetric] by (simp add: group_loop_stop)
  qed
qed

lemma groupQuestions_closed:
  "groupQuestions qs = map (\<lambda>k. page qs (10 * k)) [0..<(length qs + 9) div 10]"
  using group_loop_closed [of qs 0 "[]"] by (simp add: groupQuestions_def)

text \<open>
  Claim C6: a sequence of \<open>n > 0\<close> questions is paginated into \<open>ceil(n/10)\<close> groups;
  group \<open>k\<close> (from 0) has \<open>startNum = 10k + 1\<close> and \<open>endNum = min(10k + 10, n)\<close>, so the
  \<open>endNum\<close> of every group but the last is a multiple of 10 and that of the last is \<open>n\<close>;
  only the first group is expanded.  Twenty-three questions give the three ranges
  \<open>[1,10]\<close>, \<open>[11,20]\<close>, \<open>[21,23]\<close>.
\<close>

theorem groupQuestions_pages:
  assumes "0 < length qs"
  shows "length (groupQuestions qs) = (length qs + 9) div 10 \<and>
    (\<forall>k < length (groupQuestions qs).
        startNum (groupQuestions qs ! k) = 10 * k + 1 \<and>
        endNum (groupQuestions qs ! k) = min (10 * k + 10) (length qs) \<and>
        (isExpanded (groupQuestions qs ! k) \<longleftrightarrow> k = 0) \<and>
        (Suc k < length (groupQuestions qs) \<longrightarrow> 10 dvd endNum (groupQuestions qs ! k)) \<and>
        (Suc k = length (groupQuestions qs) \<longrightarrow> endNum (groupQuestions qs ! k) = length qs)) \<and>
    (length qs = 23 \<longrightarrow>
        map (\<lambda>g. (startNum g, endNum g, isExpanded g)) (groupQuestions qs)
          = [(1, 10, True), (11, 20, False), (21, 23, False)])"
proof -
  define m where "m = (length qs + 9) div 10"
  have b: "10 * m \<le> length qs + 9" "length qs + 9 < 10 * m + 10"
    unfolding m_def by (rule ceil10_bounds)+
  have closed: "groupQuestions qs = map (\<lambda>k. page qs (10 * k)) [0..<m]"
    unfolding m_def by (rule groupQuestions_closed)
  have len: "length (groupQuestions qs) = m"
    by (simp add: closed)
  have each: "startNum (groupQuestions qs ! k) = 10 * k + 1 \<and>
        endNum (groupQuestions qs ! k) = min (10 * k + 10) (length qs) \<and>
        (isExpanded (groupQuestions qs ! k) \<longleftrightarrow> k = 0) \<and>
        (Suc k < length (groupQuestions qs) \<longrightarrow> 10 dvd endNum (groupQuestions qs ! k)) \<and>
        (Suc k = length (groupQuestions qs) \<longrightarrow> endNum (groupQuestions qs ! k) = length qs)"
    if k: "k < length (groupQuestions qs)" for k
  proof -
    have km: "k < m" using k by (simp add: len)
    have nth: "groupQuestions qs ! k = page qs (10 * k)"
      using km by (simp add: closed)
    have e: "endNum (groupQuestions qs ! k) = min (10 * k + 10) (length qs)"
      by (simp add: nth page_def groupSize_def)
    have inner: "10 dvd endNum (groupQuestions qs ! k)" if "Suc k < m"
    proof -
      have "10 * k + 10 \<le> length qs" using that b by arith
      then show ?thesis by (simp add: e min_def)
    qed
    have final: "endNum (groupQuestions qs ! k) = length qs" if "Suc k = m"
    proof -
      have "length qs \<le> 10 * k + 10" using that b by arith
      then show ?thesis by (simp add: e min_def)
    qed
    show ?thesis
      using inner final by (simp add: len e) (simp add: nth page_def)
  qed
  have scenario: "map (\<lambda>g. (startNum g, endNum g, isExpanded g)) (groupQuestions qs)
          = [(1, 10, True), (11, 20, False), (21, 23, False)]" if "length qs = 23"
  proof -
    have "m = 3" using that by (simp add: m_def)
    then have "[0..<m] = [0, 1, 2]" by (simp add: upt_conv_Cons)
    then show ?thesis
      by (simp add: closed page_def groupSize_def that)
  qed
  show ?thesis
    unfolding len [symmetric] m_def [symmetric] using each scenario len by blast
qed

theorem groupQuestions_pages_witness:
  "map (\<lambda>g. (startNum g, endNum g, isExpanded g))
     (groupQuestions (replicate 23 example_question))
   = [(1, 10, True), (11, 20, False), (21, 23, False)]"
proof -
  let ?qs = "replicate 23 example_question"
  have h: "0 < length ?qs" by simp
  note groupQuestions_pages [OF h, THEN conjunct2, THEN conjunct2]
  then show ?thesis by simp
qed

section \<open>Removing an option that is not there\<close>

lemma filter_index_outside:
  assumes "i < 0 \<or> int (length xs) \<le> i"
  shows "filter_index xs i = xs"
proof -
  have "\<forall>p \<in> set (zip [0..<length xs] xs). (case p of (idx, x) \<Rightarrow> int idx \<noteq> i)"
    using assms by (auto dest!: set_zip_leftD)
  then have "filter (\<lambda>(idx, x). int idx \<noteq> i) (zip [0..<length xs] xs) = zip [0..<length xs] xs"
    by (simp add: filter_id_conv)
  then show ?thesis by (simp add: filter_index_def)
qed

text \<open>
  Claim C10: \<open>removeOption\<close> with an index outside \<open>[0, options.length)\<close> of the questions
  it addresses raises nothing, leaves every question of both views as it is, and still
  sets the dirty flag.
\<close>

theorem removeOption_outside_range:
  assumes "\<forall>q \<in> set (questions s) \<union> (\<Union>g \<in> set (questionGroups s). set (g_questions g)).
             q_id q = qid \<longrightarrow> i < 0 \<or> int (length (q_options q)) \<le> i"
  shows "questions (removeOption qid i s) = questions s \<and>
         questionGroups (removeOption qid i s) = questionGroups s \<and>
         hasLocalChanges (removeOption qid i s)"
proof -
  let ?f = "\<lambda>q. if q_id q = qid then q\<lparr>q_options := filter_index (q_options q) i\<rparr> else q"
  have f: "?f q = q"
    if "q \<in> set (questions s) \<union> (\<Union>g \<in> set (questionGroups s). set (g_questions g))" for q
    using assms that by (simp add: filter_index_outside)
  have 1: "map ?f (questions s) = questions s"
    by (rule map_idI) (simp add: f)
  have 2: "map ?f (g_questions g) = g_questions g" if "g \<in> set (questionGroups s)" for g
    by (rule map_idI, rule f) (use that in auto)
  have 3: "map (\<lambda>g. g\<lparr>g_questions := map ?f (g_questions g)\<rparr>) (questionGroups s) = questionGroups s"
    by (rule map_idI) (simp add: 2)
  show ?thesis
    by (simp add: removeOption_def map_views_def 1 3)
qed


theorem removeOption_outside_range_witness:
  "questions (removeOption (ascii ''q_0'') 5 example_panel) = questions example_panel \<and>
   questionGroups (removeOption (ascii ''q_0'') 5 example_panel) = questionGroups example_panel \<and>
   hasLocalChanges (removeOption (ascii ''q_0'') 5 example_panel)"
proof -
  have h: "\<forall>q \<in> set (questions example_panel)
          \<union> (\<Union>g \<in> set (questionGroups example_panel). set (g_questions g)).
      q_id q = ascii ''q_0'' \<longrightarrow> (5::int) < 0 \<or> int (length (q_options q)) \<le> 5"
    by (simp add: example_panel_def example_question_def)
  from removeOption_outside_range [OF h] show ?thesis .
qed

section \<open>Saving\<close>

lemma saveChanges_cases:
  assumes "hasLocalChanges s" and "\<not> no_session s"
  shows "saveChanges net s =
     (if \<not> net (events s @ [draft_call s])
      then s\<lparr>isSaving := False, events := events s @ [draft_call s, Alert SaveFailed]\<rparr>
      else if \<not> net (events s @ [draft_call s, final_call s])
      then s\<lparr>isSaving := False,
             events := events s @ [draft_call s, final_call s, Alert SaveFailed]\<rparr>
      else s\<lparr>isSaving := False, events := events s @ [draft_call s, final_call s],
             survey_draft := Some (questionsToText (questions s)),
             final_survey := Some (questionsToText (questions s)),
             hasLocalChanges := False\<rparr>)"
  using assms
  by (simp add: saveChanges_def Let_def issue_def save_failed_def session_def draft_call_def
      final_call_def)

text \<open>
  Claim C3: in a state with the dirty flag set and a session id, if the first of the two
  persistence calls of \<open>saveChanges\<close> rejects, the dirty flag is still set afterwards and
  the questions are unchanged (the second call is not issued); the flag is cleared exactly
  when both calls resolve.
\<close>

theorem saveChanges_first_call_rejects:
  assumes "hasLocalChanges s" and "\<not> no_session s"
  shows "(\<not> net (events s @ [UpdateField (session s) (ascii ''survey_draft'')
                               (questionsToText (questions s))]) \<longrightarrow>
            hasLocalChanges (saveChanges net s) \<and>
            questions (saveChanges net s) = questions s \<and>
            questionGroups (saveChanges net s) = questionGroups s \<and>
            events (saveChanges net s) =
              events s @ [UpdateField (session s) (ascii ''survey_draft'')
                            (questionsToText (questions s)), Alert SaveFailed]) \<and>
         (\<not> hasLocalChanges (saveChanges net s) \<longleftrightarrow>
            net (events s @ [UpdateField (session s) (ascii ''survey_draft'')
                               (questionsToText (questions s))]) \<and>
            net (events s @ [UpdateField (session s) (ascii ''survey_draft'')
                               (questionsToText (questions s)),
                             UpdateField (session s) (ascii ''final_survey'')
                               (questionsToText (questions s))]))"
  using assms
  by (simp add: saveChanges_cases [OF assms] draft_call_def final_call_def)

theorem saveChanges_first_call_rejects_witness:
  "hasLocalChanges example_panel \<and> \<not> no_session example_panel \<and>
   hasLocalChanges (saveChanges offline example_panel) \<and>
   questions (saveChanges offline example_panel) = [example_question]"
  using saveChanges_first_call_rejects [of example_panel offline]
  by (simp add: example_panel_def offline_def no_session_def ascii_def)

section \<open>Exporting\<close>




section \<open>The two views\<close>

lemma concat_windows:
  "concat (map (\<lambda>k. take 10 (drop (10 * k) xs)) [0..<m]) = take (10 * m) xs"
proof (induction m)
  case 0
  show ?case by simp
next
  case (Suc m)
  have "take (10 * Suc m) xs = take (10 * m) xs @ take 10 (drop (10 * m) xs)"
    by (simp add: take_add [symmetric] add.commute)
  then show ?case using Suc by simp
qed

lemma concat_groupQuestions: "concat (map g_questions (groupQuestions qs)) = qs"
proof -
  define m where "m = (length qs + 9) div 10"
  have "length qs + 9 < 10 * m + 10"
    unfolding m_def by (rule ceil10_bounds(2))
  then have m: "length qs \<le> 10 * m" by arith
  have "concat (map g_questions (groupQuestions qs)) = take (10 * m) qs"
    unfolding groupQuestions_closed m_def [symmetric]
    by (simp add: o_def page_def slice_def groupSize_def concat_windows)
  then show ?thesis using m by simp
qed

lemma page_map: "page (map f qs) i = map_group f (page qs i)"
  by (simp add: page_def map_group_def slice_def take_map drop_map)

lemma groupQuestions_map: "groupQuestions (map f qs) = map (map_group f) (groupQuestions qs)"
  by (simp add: groupQuestions_closed page_map)

lemma map_group_same: "g\<lparr>g_questions := map f (g_questions g)\<rparr> = map_group f g"
  by (simp add: map_group_def)

lemma ten_wise_member:
  assumes "ten_wise s" and "g \<in> set (questionGroups s)" and "q \<in> set (g_questions g)"
  shows "q \<in> set (questions s)"
proof -
  have "map (\<lambda>t. snd (snd t)) (map (\<lambda>g. (startNum g, endNum g, g_questions g)) (questionGroups s))
      = map (\<lambda>t. snd (snd t))
          (map (\<lambda>g. (startNum g, endNum g, g_questions g)) (groupQuestions (questions s)))"
    using assms(1) by (simp only: ten_wise_def)
  then have "map g_questions (questionGroups s) = map g_questions (groupQuestions (questions s))"
    by (simp add: o_def)
  then have "concat (map g_questions (questionGroups s)) = questions s"
    by (simp add: concat_groupQuestions)
  moreover have "q \<in> set (concat (map g_questions (questionGroups s)))"
    using assms(2,3) by auto
  ultimately show ?thesis by simp
qed

lemma views_agree:
  assumes tw: "ten_wise s" and ids: "\<forall>q \<in> set (questions s). q_id (f q) = q_id q"
    and qs': "questions s' = map f (questions s)"
    and gs': "questionGroups s' = map (map_group f) (questionGroups s)"
  shows "(\<forall>g \<in> set (questionGroups s'). \<forall>q \<in> set (g_questions g).
            q \<in> set (questions s') \<and>
            (distinct (map q_id (questions s)) \<longrightarrow>
               (\<forall>q' \<in> set (questions s'). q_id q' = q_id q \<longrightarrow> q' = q))) \<and>
         ten_wise s'"
proof -
  let ?h = "\<lambda>t. case t of (a, b, c) \<Rightarrow> (a, b, map f c)"
  have "map (\<lambda>g. (startNum g, endNum g, g_questions g)) (questionGroups s')
      = map ?h (map (\<lambda>g. (startNum g, endNum g, g_questions g)) (questionGroups s))"
    by (simp add: gs' o_def map_group_def)
  also have "\<dots> = map ?h (map (\<lambda>g. (startNum g, endNum g, g_questions g))
                            (groupQuestions (questions s)))"
    using tw by (simp only: ten_wise_def)
  also have "\<dots> = map (\<lambda>g. (startNum g, endNum g, g_questions g)) (groupQuestions (questions s'))"
    by (simp add: qs' groupQuestions_map o_def map_group_def)
  finally have tw': "ten_wise s'"
    by (simp only: ten_wise_def)
  have same_ids: "map q_id (questions s') = map q_id (questions s)"
    using ids by (simp add: qs')
  have uniq: "q' = q"
    if "distinct (map q_id (questions s))" "q \<in> set (questions s')" "q' \<in> set (questions s')"
       "q_id q' = q_id q" for q q'
  proof -
    have "distinct (map q_id (questions s'))"
      using that(1) same_ids by simp
    then have "inj_on q_id (set (questions s'))"
      by (simp add: distinct_map)
    then show ?thesis using that(2-4) by (simp add: inj_on_def)
  qed
  show ?thesis
    using tw' uniq ten_wise_member [OF tw'] by blast
qed

lemma map_views_agree:
  assumes "ten_wise s" and "\<forall>q \<in> set (questions s). q_id (f q) = q_id q"
  shows "(\<forall>g \<in> set (questionGroups (map_views f s)). \<forall>q \<in> set (g_questions g).
            q \<in> set (questions (map_views f s)) \<and>
            (distinct (map q_id (questions s)) \<longrightarrow>
               (\<forall>q' \<in> set (questions (map_views f s)). q_id q' = q_id q \<longrightarrow> q' = q))) \<and>
         ten_wise (map_views f s)"
  by (rule views_agree [OF assms]) (simp_all add: map_views_def map_group_same)

text \<open>
  Claim C5: after each of the four edits (replace a question's text, replace an option by
  index, append the placeholder option, remove an option by index), applied to a state whose
  grouped view is the partition of the flat sequence into windows of ten, every question
  of the grouped view is a question of the flat sequence with the same id and the same
  content; where the ids of the flat sequence are distinct it is the only question there
  with its id.  The grouped view still is the partition of the flat sequence.  The state
  \<open>u\<close> is the one after \<open>updateOption\<close>, for any index: its option arrays may have holes.
\<close>

theorem dual_view_consistency:
  assumes "ten_wise s"
    and "s' = updateQuestionText qid t s \<or> s' = addOption qid s \<or> s' = removeOption qid i s"
    and "u = updateOption qid i t s"
  shows "((\<forall>g \<in> set (questionGroups s'). \<forall>q \<in> set (g_questions g).
             q \<in> set (questions s') \<and>
             (distinct (map q_id (questions s)) \<longrightarrow>
                (\<forall>q' \<in> set (questions s'). q_id q' = q_id q \<longrightarrow> q' = q))) \<and>
          ten_wise s') \<and>
         ((\<forall>g \<in> set (questionGroups u). \<forall>q \<in> set (g_questions g).
             q \<in> set (questions u) \<and>
             (distinct (map q_id (questions s)) \<longrightarrow>
                (\<forall>q' \<in> set (questions u). q_id q' = q_id q \<longrightarrow> q' = q))) \<and>
          ten_wise u \<and> hasLocalChanges u)"
proof (rule conjI)
  consider (retext) "s' = updateQuestionText qid t s"
    | (add) "s' = addOption qid s" | (rem) "s' = removeOption qid i s"
    using assms(2) by blast
  then show "(\<forall>g \<in> set (questionGroups s'). \<forall>q \<in> set (g_questions g).
             q \<in> set (questions s') \<and>
             (distinct (map q_id (questions s)) \<longrightarrow>
                (\<forall>q' \<in> set (questions s'). q_id q' = q_id q \<longrightarrow> q' = q))) \<and>
          ten_wise s'"
  proof cases
    case retext
    let ?f = "\<lambda>q. if q_id q = qid then q\<lparr>q_text := t\<rparr> else q"
    have ids: "\<forall>q \<in> set (questions s). q_id (?f q) = q_id q" by simp
    have eq: "s' = map_views ?f s" using retext by (simp only: updateQuestionText_def)
    show ?thesis unfolding eq by (rule map_views_agree [OF assms(1) ids])
  next
    case add
    let ?f = "\<lambda>q. if q_id q = qid then q\<lparr>q_options := q_options q @ [new_option]\<rparr> else q"
    have ids: "\<forall>q \<in> set (questions s). q_id (?f q) = q_id q" by simp
    have eq: "s' = map_views ?f s" using add by (simp only: addOption_def)
    show ?thesis unfolding eq by (rule map_views_agree [OF assms(1) ids])
  next
    case rem
    let ?f = "\<lambda>q. if q_id q = qid then q\<lparr>q_options := filter_index (q_options q) i\<rparr> else q"
    have ids: "\<forall>q \<in> set (questions s). q_id (?f q) = q_id q" by simp
    have eq: "s' = map_views ?f s" using rem by (simp only: removeOption_def)
    show ?thesis unfolding eq by (rule map_views_agree [OF assms(1) ids])
  qed
next
  let ?f = "updateOption_fn qid i t"
  have ids: "\<forall>q \<in> set (questions s). q_id (?f q) = q_id q"
    by (simp add: updateOption_fn_def)
  have qs: "questions u = map ?f (questions s)"
    and gs: "questionGroups u = map (map_group ?f) (questionGroups s)"
    and flag: "hasLocalChanges u"
    by (simp_all add: assms(3) updateOption_def Let_def)
  from views_agree [OF assms(1) ids qs gs] flag
  show "(\<forall>g \<in> set (questionGroups u). \<forall>q \<in> set (g_questions g).
             q \<in> set (questions u) \<and>
             (distinct (map q_id (questions s)) \<longrightarrow>
                (\<forall>q' \<in> set (questions u). q_id q' = q_id q \<longrightarrow> q' = q))) \<and>
          ten_wise u \<and> hasLocalChanges u"
    by simp
qed

theorem dual_view_consistency_witness:
  "ten_wise (addOption (ascii ''q_0'') example_panel) \<and>
   ten_wise (updateOption (ascii ''q_0'') 1 (ascii ''c'') example_panel) \<and>
   map q_options (questions (updateOption (ascii ''q_0'') 1 (ascii ''c'') example_panel))
     = [[Some (ascii ''a''), Some (ascii ''c'')]] \<and>
   map (\<lambda>g. map q_options (g_questions g))
       (questionGroups (updateOption (ascii ''q_0'') 1 (ascii ''c'') example_panel))
     = [[[Some (ascii ''a''), Some (ascii ''c'')]]] \<and>
   ten_wise (updateOption (ascii ''q_0'') 4 (ascii ''c'') example_panel) \<and>
   map q_options (questions (updateOption (ascii ''q_0'') 4 (ascii ''c'') example_panel))
     = [[Some (ascii ''a''), Some (ascii ''b''), None, None, Some (ascii ''c'')]] \<and>
   map (\<lambda>g. map q_options (g_questions g))
       (questionGroups (updateOption (ascii ''q_0'') 4 (ascii ''c'') example_panel))
     = [[[Some (ascii ''a''), Some (ascii ''b''), None, None, Some (ascii ''c'')]]]"
proof -
  have h: "ten_wise example_panel" by code_simp
  have op: "addOption (ascii ''q_0'') example_panel
              = updateQuestionText (ascii ''q_0'') (ascii ''c'') example_panel \<or>
            addOption (ascii ''q_0'') example_panel = addOption (ascii ''q_0'') example_panel \<or>
            addOption (ascii ''q_0'') example_panel = removeOption (ascii ''q_0'') 1 example_panel"
    by simp
  have op': "addOption (ascii ''q_0'') example_panel
              = updateQuestionText (ascii ''q_0'') (ascii ''c'') example_panel \<or>
            addOption (ascii ''q_0'') example_panel = addOption (ascii ''q_0'') example_panel \<or>
            addOption (ascii ''q_0'') example_panel = removeOption (ascii ''q_0'') 4 example_panel"
    by simp
  have a: "map q_options (questions (updateOption (ascii ''q_0'') 1 (ascii ''c'') example_panel))
     = [[Some (ascii ''a''), Some (ascii ''c'')]]"
    by code_simp
  have b: "map (\<lambda>g. map q_options (g_questions g))
       (questionGroups (updateOption (ascii ''q_0'') 1 (ascii ''c'') example_panel))
     = [[[Some (ascii ''a''), Some (ascii ''c'')]]]"
    by code_simp
  have c: "map q_options (questions (updateOption (ascii ''q_0'') 4 (ascii ''c'') example_panel))
     = [[Some (ascii ''a''), Some (ascii ''b''), None, None, Some (ascii ''c'')]]"
    by code_simp
  have d: "map (\<lambda>g. map q_options (g_questions g))
       (questionGroups (updateOption (ascii ''q_0'') 4 (ascii ''c'') example_panel))
     = [[[Some (ascii ''a''), Some (ascii ''b''), None, None, Some (ascii ''c'')]]]"
    by code_simp
  from dual_view_consistency [where qid = "ascii ''q_0''" and i = 1 and t = "ascii ''c''",
                               OF h op refl]
       dual_view_consistency [where qid = "ascii ''q_0''" and i = 4 and t = "ascii ''c''",
                               OF h op' refl] a b c d
  show ?thesis by simp
qed
section \<open>Lines before the first question\<close>

lemma parse_line_idle:
  assumes "currentQuestion p = None" and "\<not> starts_question raw"
  shows "parse_line p raw = p"
proof (cases "trim raw = []")
  case True
  then show ?thesis by (simp add: parse_line_def)
next
  case False
  then have "first_match QUESTION_KEYWORD_PATTERNS (trim raw) = None"
    using assms(2) by (simp add: starts_question_def)
  then show ?thesis
    using assms(1) False by (simp add: parse_line_def)
qed

lemma parse_lines_idle:
  assumes "currentQuestion p = None" and "\<forall>raw \<in> set pre. \<not> starts_question raw"
  shows "parse_lines p (pre @ rest) = parse_lines p rest"
  using assms by (induction pre) (simp_all add: parse_line_idle)

lemma assemble_skip:
  assumes "\<forall>raw \<in> set pre. \<not> starts_question raw"
  shows "assemble (pre @ rest) = assemble rest"
  using assms by (simp add: assemble_def parse_lines_idle)

text \<open>
  Claim C9: the lines before the first line that starts a question (whatever they are,
  option lines too) contribute to no question: the result is that of the lines from the first
  question line on.  A draft without a question line, the empty one and one of white space
  only included, parses to the empty sequence; the parser has no error result.
\<close>

theorem lines_before_first_question:
  assumes "split 10 (processDraft draft) = pre @ rest"
    and "\<forall>raw \<in> set pre. \<not> starts_question raw"
  shows "parseSurveyDraft draft = (if draft = [] \<or> trim draft = [] then [] else assemble rest) \<and>
         (rest = [] \<longrightarrow> parseSurveyDraft draft = []) \<and>
         (trim draft = [] \<longrightarrow> parseSurveyDraft draft = [])"
proof -
  have 1: "parseSurveyDraft draft = (if draft = [] \<or> trim draft = [] then [] else assemble rest)"
    using assemble_skip [OF assms(2), of rest] by (simp add: parseSurveyDraft_def assms(1))
  have 2: "assemble [] = []" by (simp add: assemble_def)
  show ?thesis using 1 2 by simp
qed

theorem lines_before_first_question_witness:
  "parseSurveyDraft ([9312] @ ascii '' x'' @ [10] @ ascii ''- y'' @ [10] @ ascii ''Q1. A'')
     = assemble [ascii ''Q1. A''] \<and>
   map q_options (parseSurveyDraft ([9312] @ ascii '' x'' @ [10] @ ascii ''- y'' @ [10] @ ascii ''Q1. A''))
     = [[]]"
proof -
  let ?d = "[9312] @ ascii '' x'' @ [10] @ ascii ''- y'' @ [10] @ ascii ''Q1. A''"
  have a: "split 10 (processDraft ?d) = [[9312] @ ascii '' x'', ascii ''- y''] @ [ascii ''Q1. A'']"
    by code_simp
  have b: "\<forall>raw \<in> set [[9312] @ ascii '' x'', ascii ''- y'']. \<not> starts_question raw"
    by code_simp
  have c: "?d \<noteq> [] \<and> trim ?d \<noteq> []" by code_simp
  have d: "map q_options (assemble [ascii ''Q1. A'']) = [[]]" by code_simp
  from lines_before_first_question [OF a b] c d show ?thesis by simp
qed

section \<open>Type codes\<close>

lemma greedy_keeps:
  assumes f: "\<And>c c'. c' \<in> set (f c) \<Longrightarrow> fst c' = fst c"
  shows "c' \<in> set (greedy f n c) \<Longrightarrow> fst c' = fst c"
proof (induction n arbitrary: c c')
  case 0
  then show ?case by simp
next
  case (Suc n)
  from Suc.prems consider "c' = c"
    | c1 where "c1 \<in> set (f c)" and "c' \<in> set (greedy f n c1)"
    by auto
  then show ?case
  proof cases
    case 1
    then show ?thesis by simp
  next
    case 2
    then show ?thesis using Suc.IH [of c' c1] f [of c1 c] by simp
  qed
qed

lemma lazy_keeps:
  assumes f: "\<And>c c'. c' \<in> set (f c) \<Longrightarrow> fst c' = fst c"
  shows "c' \<in> set (lazy f n c) \<Longrightarrow> fst c' = fst c"
proof (induction n arbitrary: c c')
  case 0
  then show ?case by simp
next
  case (Suc n)
  from Suc.prems consider "c' = c"
    | c1 where "c1 \<in> set (f c)" and "c' \<in> set (lazy f n c1)"
    by auto
  then show ?case
  proof cases
    case 1
    then show ?thesis by simp
  next
    case 2
    then show ?thesis using Suc.IH [of c' c1] f [of c1 c] by simp
  qed
qed

lemma groupfree_keeps:
  "groupfree r \<Longrightarrow> c' \<in> set (rmatch r c) \<Longrightarrow> fst c' = fst c"
proof (induction r arbitrary: c c')
  case (Cls p)
  then show ?case by (auto split: prod.splits list.splits if_splits)
next
  case (Seq a b)
  then obtain c1 where "c1 \<in> set (rmatch a c)" and "c' \<in> set (rmatch b c1)"
    by auto
  then show ?case using Seq.IH(1) [of c1 c] Seq.IH(2) [of c' c1] Seq.prems(1) by simp
next
  case (Alt a b)
  from Alt.prems have ga: "groupfree a" and gb: "groupfree b"
    and m: "c' \<in> set (rmatch a c) \<or> c' \<in> set (rmatch b c)"
    by simp_all
  then show ?case using Alt.IH(1) [OF ga] Alt.IH(2) [OF gb] by blast
next
  case (Opt a)
  from Opt.prems have ga: "groupfree a" and m: "c' = c \<or> c' \<in> set (rmatch a c)"
    by auto
  then show ?case using Opt.IH [OF ga] by blast
next
  case (Star a)
  then have "\<And>c c'. c' \<in> set (rmatch a c) \<Longrightarrow> fst c' = fst c" by simp
  from greedy_keeps [of "rmatch a", OF this] Star.prems(2) show ?case by simp
next
  case (Plus a)
  then have a: "\<And>c c'. c' \<in> set (rmatch a c) \<Longrightarrow> fst c' = fst c" by simp
  from Plus.prems(2) obtain c1 where c1: "c1 \<in> set (rmatch a c)"
    and c': "c' \<in> set (greedy (rmatch a) (left c1) c1)"
    by auto
  from greedy_keeps [of "rmatch a", OF a c'] a [OF c1] show ?case by simp
next
  case (LazyStar a)
  then have "\<And>c c'. c' \<in> set (rmatch a c) \<Longrightarrow> fst c' = fst c" by simp
  from lazy_keeps [of "rmatch a", OF this] LazyStar.prems(2) show ?case by simp
qed (auto split: if_splits)

lemma letter_pair:
  assumes "c' \<in> set (rmatch (Seq (chr_i x) (chr_i y)) (cs, i, s))"
  shows "\<exists>a b s'. s = a # b # s' \<and> c' = (cs, Suc (Suc i), s') \<and>
           (a = x \<or> a = x + 32) \<and> (b = y \<or> b = y + 32)"
  using assms by (auto simp: chr_i_def split: list.splits if_splits)

lemma word_i_pair: "word_i [u, v] = Seq (chr_i (of_char u)) (chr_i (of_char v))"
  by (simp add: word_i_def)

lemma upper_pair:
  assumes "a = x \<or> a = x + 32" and "b = y \<or> b = y + 32"
    and "65 \<le> x" "x \<le> 90" "65 \<le> y" "y \<le> 90"
  shows "toUpperCase [a, b] = [x, y]"
  using assms by (auto simp: toUpperCase_def)

lemma code_case:
  assumes "c' \<in> set (rmatch (Seq (chr_i x) (chr_i y)) (cs, i, s))"
    and "65 \<le> x" "x \<le> 90" "65 \<le> y" "y \<le> 90" and "[x, y] \<in> type_code_set"
  shows "\<exists>a b s'. s = a # b # s' \<and> c' = (cs, Suc (Suc i), s') \<and>
           toUpperCase [a, b] \<in> type_code_set"
proof -
  from letter_pair [OF assms(1)] obtain a b s' where s: "s = a # b # s'"
    and c': "c' = (cs, Suc (Suc i), s')" and a: "a = x \<or> a = x + 32" and b: "b = y \<or> b = y + 32"
    by blast
  have "toUpperCase [a, b] = [x, y]"
    by (rule upper_pair [OF a b assms(2-5)])
  then show ?thesis using s c' assms(6) by simp
qed

lemma type_codes_match:
  assumes "c' \<in> set (rmatch type_codes (cs, i, s))"
  shows "\<exists>a b s'. s = a # b # s' \<and> c' = (cs, Suc (Suc i), s') \<and>
           toUpperCase [a, b] \<in> type_code_set"
proof -
  from assms consider
      "c' \<in> set (rmatch (Seq (chr_i 83) (chr_i 67)) (cs, i, s))"
    | "c' \<in> set (rmatch (Seq (chr_i 77) (chr_i 65)) (cs, i, s))"
    | "c' \<in> set (rmatch (Seq (chr_i 79) (chr_i 81)) (cs, i, s))"
    | "c' \<in> set (rmatch (Seq (chr_i 82) (chr_i 83)) (cs, i, s))"
    | "c' \<in> set (rmatch (Seq (chr_i 68) (chr_i 67)) (cs, i, s))"
    | "c' \<in> set (rmatch (Seq (chr_i 82) (chr_i 75)) (cs, i, s))"
    | "c' \<in> set (rmatch (Seq (chr_i 77) (chr_i 71)) (cs, i, s))"
    unfolding type_codes_def word_i_pair alts.simps rmatch.simps(6) set_append Un_iff
    by (simp only: of_char_Char) (simp, blast)
  then show ?thesis
    by cases (erule code_case; simp add: type_code_set_def ascii_def)+
qed

lemma in_Seq:
  "c' \<in> set (rmatch (Seq a b) c) \<longleftrightarrow> (\<exists>c1 \<in> set (rmatch a c). c' \<in> set (rmatch b c1))"
  by simp

lemma in_Group:
  "c2 \<in> set (rmatch (Group n a) (cs, i, s)) \<longleftrightarrow>
     (\<exists>cs' j s'. (cs', j, s') \<in> set (rmatch a (cs, i, s)) \<and>
                  c2 = ((n, take (j - i) s) # cs', j, s'))"
  by (force simp: image_iff)

lemma in_chr:
  "c1 \<in> set (rmatch (chr x) (cs, i, s)) \<longleftrightarrow> (\<exists>s1. s = x # s1 \<and> c1 = (cs, Suc i, s1))"
  by (auto simp: chr_def split: list.splits)

lemma type_pattern_capture:
  assumes "c' \<in> set (rmatch TYPE_CODE_PATTERN ([], i, s))"
  shows "\<exists>w. map_of (fst c') 1 = Some w \<and> toUpperCase w \<in> type_code_set"
proof -
  let ?tail = "Seq repeat_count (chr 41)"
  have p: "TYPE_CODE_PATTERN = Seq (chr 40) (Seq (Group 1 type_codes) ?tail)"
    by (simp add: TYPE_CODE_PATTERN_def)
  from assms obtain c1 where c1: "c1 \<in> set (rmatch (chr 40) ([], i, s))"
    and r1: "c' \<in> set (rmatch (Seq (Group 1 type_codes) ?tail) c1)"
    unfolding p in_Seq [of c' "chr 40"] by blast
  from c1 obtain s1 where c1': "c1 = ([], Suc i, s1)"
    unfolding in_chr by blast
  from r1 obtain c2 where c2: "c2 \<in> set (rmatch (Group 1 type_codes) c1)"
    and r2: "c' \<in> set (rmatch ?tail c2)"
    unfolding in_Seq [of c' "Group 1 type_codes"] by blast
  from c2 obtain cs' j s2 where m: "(cs', j, s2) \<in> set (rmatch type_codes ([], Suc i, s1))"
    and c2': "c2 = ((1, take (j - Suc i) s1) # cs', j, s2)"
    unfolding c1' in_Group by blast
  from type_codes_match [OF m] obtain a b where s1: "s1 = a # b # s2"
    and j: "j = Suc (Suc (Suc i))" and cs': "cs' = []"
    and up: "toUpperCase [a, b] \<in> type_code_set"
    by auto
  have "groupfree ?tail"
    by (simp add: repeat_count_def chr_def)
  from groupfree_keeps [OF this r2] have "fst c' = [(1, [a, b])]"
    by (simp add: c2' s1 j cs')
  then show ?thesis using up by simp
qed

lemma exec_from_Some:
  "exec_from r i s = Some (k, w, cs) \<Longrightarrow>
     \<exists>k' s' j rest. (cs, j, rest) \<in> set (rmatch r ([], k', s'))"
proof (induction s arbitrary: i)
  case Nil
  then show ?case
    by (subst (asm) exec_from.simps) (auto split: list.splits, (metis list.set_intros(1))+)
next
  case (Cons x t)
  show ?case
  proof (cases "rmatch r ([], i, x # t)")
    case Nil
    then have "exec_from r (Suc i) t = Some (k, w, cs)"
      using Cons.prems by (subst (asm) exec_from.simps) simp
    then show ?thesis by (rule Cons.IH)
  next
    case (Cons c cs0)
    then have "fst c = cs"
      using Cons.prems by (subst (asm) exec_from.simps) (auto split: prod.splits)
    then have "(cs, fst (snd c), snd (snd c)) \<in> set (rmatch r ([], i, x # t))"
      using Cons by (metis list.set_intros(1) prod.collapse)
    then show ?thesis by blast
  qed
qed

lemma match_type_code:
  assumes "match line TYPE_CODE_PATTERN = Some m"
  shows "toUpperCase (group m 1) \<in> type_code_set"
proof -
  from assms obtain k w cs where e: "exec_from TYPE_CODE_PATTERN 0 line = Some (k, w, cs)"
    and m: "m = map_of cs"
    by (auto simp: match_def split: option.splits)
  from exec_from_Some [OF e] obtain k' s' j rest
    where "(cs, j, rest) \<in> set (rmatch TYPE_CODE_PATTERN ([], k', s'))" by blast
  from type_pattern_capture [OF this] show ?thesis
    by (auto simp: m group_def)
qed

lemma line_type_code:
  "(case match line TYPE_CODE_PATTERN of
      Some typeMatch \<Rightarrow> toUpperCase (group typeMatch 1)
    | None \<Rightarrow> ascii ''SC'') \<in> type_code_set"
proof (cases "match line TYPE_CODE_PATTERN")
  case None
  then show ?thesis by (simp add: type_code_set_def)
next
  case (Some m)
  then show ?thesis using match_type_code [OF Some] by simp
qed

lemma start_question_typed: "typed p \<Longrightarrow> typed (start_question p line m)"
  using line_type_code [of line]
  by (auto simp: typed_def start_question_def Let_def split: option.splits)

lemma parse_line_typed: "typed p \<Longrightarrow> typed (parse_line p raw)"
  by (auto simp: parse_line_def Let_def start_question_typed split: option.splits)
     (auto simp: typed_def)

lemma parse_lines_typed: "typed p \<Longrightarrow> typed (parse_lines p lines)"
  by (induction lines arbitrary: p) (simp_all add: parse_line_typed)

lemma assemble_typed: "q \<in> set (assemble lines) \<Longrightarrow> q_type q \<in> type_code_set"
proof -
  have "typed \<lparr> parsedQuestions = [], currentQuestion = None, questionId = 0 \<rparr>"
    by (simp add: typed_def)
  from parse_lines_typed [OF this, of lines] show "q \<in> set (assemble lines) \<Longrightarrow> q_type q \<in> type_code_set"
    by (auto simp: assemble_def typed_def Let_def split: option.splits)
qed

lemma in_greedy_class:
  "c' \<in> set (greedy (rmatch (Cls p)) n (cs, i, s)) \<longleftrightarrow>
     (\<exists>k. k \<le> n \<and> k \<le> length (takeWhile p s) \<and> c' = (cs, i + k, drop k s))"
proof (induction n arbitrary: i s)
  case 0
  show ?case by auto
next
  case (Suc n)
  show ?case
  proof (cases s)
    case Nil
    then show ?thesis by (auto simp: advanced_def)
  next
    case (Cons x s')
    show ?thesis
    proof (cases "p x")
      case False
      then show ?thesis using Cons by (auto simp: advanced_def)
    next
      case True
      have "c' \<in> set (greedy (rmatch (Cls p)) (Suc n) (cs, i, s)) \<longleftrightarrow>
              c' = (cs, i, s) \<or> c' \<in> set (greedy (rmatch (Cls p)) n (cs, Suc i, s'))"
        using True Cons by (auto simp: advanced_def)
      also have "\<dots> \<longleftrightarrow> c' = (cs, i, s) \<or>
          (\<exists>k. k \<le> n \<and> k \<le> length (takeWhile p s') \<and> c' = (cs, Suc i + k, drop k s'))"
        by (simp only: Suc.IH)
      also have "\<dots> \<longleftrightarrow>
          (\<exists>k. k \<le> Suc n \<and> k \<le> length (takeWhile p s) \<and> c' = (cs, i + k, drop k s))"
      proof
        assume "c' = (cs, i, s) \<or>
          (\<exists>k. k \<le> n \<and> k \<le> length (takeWhile p s') \<and> c' = (cs, Suc i + k, drop k s'))"
        then show "\<exists>k. k \<le> Suc n \<and> k \<le> length (takeWhile p s) \<and> c' = (cs, i + k, drop k s)"
        proof
          assume "c' = (cs, i, s)"
          then show ?thesis by (intro exI [of _ 0]) simp
        next
          assume "\<exists>k. k \<le> n \<and> k \<le> length (takeWhile p s') \<and> c' = (cs, Suc i + k, drop k s')"
          then obtain k where "k \<le> n" "k \<le> length (takeWhile p s')"
            "c' = (cs, Suc i + k, drop k s')" by blast
          then show ?thesis using True Cons by (intro exI [of _ "Suc k"]) simp
        qed
      next
        assume "\<exists>k. k \<le> Suc n \<and> k \<le> length (takeWhile p s) \<and> c' = (cs, i + k, drop k s)"
        then obtain k where k: "k \<le> Suc n" "k \<le> length (takeWhile p s)"
          "c' = (cs, i + k, drop k s)" by blast
        show "c' = (cs, i, s) \<or>
          (\<exists>k. k \<le> n \<and> k \<le> length (takeWhile p s') \<and> c' = (cs, Suc i + k, drop k s'))"
        proof (cases k)
          case 0
          then show ?thesis using k by simp
        next
          case (Suc k')
          then show ?thesis using k True Cons by (intro disjI2 exI [of _ k']) simp
        qed
      qed
      finally show ?thesis .
    qed
  qed
qed

lemma in_plus_class:
  "c' \<in> set (rmatch (Plus (Cls p)) (cs, i, s)) \<longleftrightarrow>
     (\<exists>k. 0 < k \<and> k \<le> length (takeWhile p s) \<and> c' = (cs, i + k, drop k s))"
proof (cases s)
  case Nil
  then show ?thesis by simp
next
  case (Cons x s')
  show ?thesis
  proof (cases "p x")
    case False
    then show ?thesis using Cons by simp
  next
    case True
    have "c' \<in> set (rmatch (Plus (Cls p)) (cs, i, s)) \<longleftrightarrow>
            c' \<in> set (greedy (rmatch (Cls p)) (length s') (cs, Suc i, s'))"
      using True Cons by (simp add: left_def)
    also have "\<dots> \<longleftrightarrow>
        (\<exists>k. k \<le> length s' \<and> k \<le> length (takeWhile p s') \<and> c' = (cs, Suc i + k, drop k s'))"
      by (simp only: in_greedy_class)
    also have "\<dots> \<longleftrightarrow> (\<exists>k. 0 < k \<and> k \<le> length (takeWhile p s) \<and> c' = (cs, i + k, drop k s))"
    proof
      assume "\<exists>k. k \<le> length s' \<and> k \<le> length (takeWhile p s') \<and> c' = (cs, Suc i + k, drop k s')"
      then obtain k where "k \<le> length (takeWhile p s')" "c' = (cs, Suc i + k, drop k s')"
        by blast
      then show "\<exists>k. 0 < k \<and> k \<le> length (takeWhile p s) \<and> c' = (cs, i + k, drop k s)"
        using True Cons by (intro exI [of _ "Suc k"]) simp
    next
      assume "\<exists>k. 0 < k \<and> k \<le> length (takeWhile p s) \<and> c' = (cs, i + k, drop k s)"
      then obtain k where k: "0 < k" "k \<le> length (takeWhile p s)" "c' = (cs, i + k, drop k s)"
        by blast
      then obtain k' where k': "k = Suc k'" by (cases k) simp_all
      have "k' \<le> length (takeWhile p s')" using k(2) True Cons k' by simp
      moreover have "k' \<le> length s'"
        using calculation length_takeWhile_le [of p s'] by (rule order_trans)
      ultimately show "\<exists>k. k \<le> length s' \<and> k \<le> length (takeWhile p s') \<and>
          c' = (cs, Suc i + k, drop k s')"
        using k(3) k' Cons by (intro exI [of _ k']) simp
    qed
    finally show ?thesis .
  qed
qed

lemma upper_code_letters:
  assumes "toUpperCase [a, b] = [x, y]" and "65 \<le> x" "x \<le> 90" "65 \<le> y" "y \<le> 90"
  shows "(a = x \<or> a = x + 32) \<and> (b = y \<or> b = y + 32)"
  using assms by (auto simp: toUpperCase_def split: if_splits)

lemma letter_pair_intro:
  assumes "a = x \<or> a = x + 32" and "b = y \<or> b = y + 32"
  shows "(cs, Suc (Suc i), s') \<in> set (rmatch (Seq (chr_i x) (chr_i y)) (cs, i, a # b # s'))"
  using assms by (auto simp: chr_i_def)

lemma type_codes_alts:
  "set (rmatch type_codes c) =
     set (rmatch (Seq (chr_i 83) (chr_i 67)) c) \<union> set (rmatch (Seq (chr_i 77) (chr_i 65)) c) \<union>
     set (rmatch (Seq (chr_i 79) (chr_i 81)) c) \<union> set (rmatch (Seq (chr_i 82) (chr_i 83)) c) \<union>
     set (rmatch (Seq (chr_i 68) (chr_i 67)) c) \<union> set (rmatch (Seq (chr_i 82) (chr_i 75)) c) \<union>
     set (rmatch (Seq (chr_i 77) (chr_i 71)) c)"
  unfolding type_codes_def word_i_pair alts.simps rmatch.simps(6) set_append
  by (simp only: of_char_Char) (simp add: Un_assoc)

lemma type_codes_intro:
  assumes "toUpperCase [a, b] \<in> type_code_set"
  shows "(cs, Suc (Suc i), s') \<in> set (rmatch type_codes (cs, i, a # b # s'))"
proof -
  from assms consider "toUpperCase [a, b] = [83, 67]" | "toUpperCase [a, b] = [77, 65]"
    | "toUpperCase [a, b] = [79, 81]" | "toUpperCase [a, b] = [82, 83]"
    | "toUpperCase [a, b] = [68, 67]" | "toUpperCase [a, b] = [82, 75]"
    | "toUpperCase [a, b] = [77, 71]"
    by (auto simp: type_code_set_def ascii_def)
  then show ?thesis
  proof cases
    case 1
    from upper_code_letters [OF this] have "(a = 83 \<or> a = 83 + 32) \<and> (b = 67 \<or> b = 67 + 32)" by simp
    then show ?thesis unfolding type_codes_alts using letter_pair_intro [of a 83 b 67 cs i s'] by blast
  next
    case 2
    from upper_code_letters [OF this] have "(a = 77 \<or> a = 77 + 32) \<and> (b = 65 \<or> b = 65 + 32)" by simp
    then show ?thesis unfolding type_codes_alts using letter_pair_intro [of a 77 b 65 cs i s'] by blast
  next
    case 3
    from upper_code_letters [OF this] have "(a = 79 \<or> a = 79 + 32) \<and> (b = 81 \<or> b = 81 + 32)" by simp
    then show ?thesis unfolding type_codes_alts using letter_pair_intro [of a 79 b 81 cs i s'] by blast
  next
    case 4
    from upper_code_letters [OF this] have "(a = 82 \<or> a = 82 + 32) \<and> (b = 83 \<or> b = 83 + 32)" by simp
    then show ?thesis unfolding type_codes_alts using letter_pair_intro [of a 82 b 83 cs i s'] by blast
  next
    case 5
    from upper_code_letters [OF this] have "(a = 68 \<or> a = 68 + 32) \<and> (b = 67 \<or> b = 67 + 32)" by simp
    then show ?thesis unfolding type_codes_alts using letter_pair_intro [of a 68 b 67 cs i s'] by blast
  next
    case 6
    from upper_code_letters [OF this] have "(a = 82 \<or> a = 82 + 32) \<and> (b = 75 \<or> b = 75 + 32)" by simp
    then show ?thesis unfolding type_codes_alts using letter_pair_intro [of a 82 b 75 cs i s'] by blast
  next
    case 7
    from upper_code_letters [OF this] have "(a = 77 \<or> a = 77 + 32) \<and> (b = 71 \<or> b = 71 + 32)" by simp
    then show ?thesis unfolding type_codes_alts using letter_pair_intro [of a 77 b 71 cs i s'] by blast
  qed
qed

lemma in_type_codes:
  "c' \<in> set (rmatch type_codes (cs, i, s)) \<longleftrightarrow>
     (\<exists>a b s'. s = a # b # s' \<and> c' = (cs, Suc (Suc i), s') \<and> toUpperCase [a, b] \<in> type_code_set)"
  using type_codes_match [of c' cs i s] type_codes_intro [of _ _ cs i] by blast

lemma digit_run_end:
  assumes "k \<le> length (takeWhile is_digit r)" and "drop k r = 41 # r'"
  shows "k = length (takeWhile is_digit r)"
proof (rule ccontr)
  assume "k \<noteq> length (takeWhile is_digit r)"
  then have k: "k < length (takeWhile is_digit r)" using assms(1) by simp
  then have "takeWhile is_digit r ! k \<in> set (takeWhile is_digit r)" by simp
  then have "is_digit (takeWhile is_digit r ! k)" by (rule set_takeWhileD [THEN conjunct2])
  moreover have "takeWhile is_digit r ! k = r ! k" using k by (rule takeWhile_nth)
  moreover have "r ! k = 41" using assms(2) by (rule nth_via_drop)
  ultimately show False by (simp add: is_digit_def)
qed

lemma in_repeat_body:
  "c1 \<in> set (rmatch (Seq (chr 40) (Seq (Plus (Cls is_digit)) (chr 41))) (cs, j, rest)) \<longleftrightarrow>
     (\<exists>r r'. rest = 40 # r \<and> takeWhile is_digit r \<noteq> [] \<and> dropWhile is_digit r = 41 # r' \<and>
              c1 = (cs, j + length (takeWhile is_digit r) + 2, r'))"
proof
  assume "c1 \<in> set (rmatch (Seq (chr 40) (Seq (Plus (Cls is_digit)) (chr 41))) (cs, j, rest))"
  then obtain a where a: "a \<in> set (rmatch (chr 40) (cs, j, rest))"
    and 1: "c1 \<in> set (rmatch (Seq (Plus (Cls is_digit)) (chr 41)) a)"
    unfolding in_Seq [of c1 "chr 40"] by blast
  from a obtain r where r: "rest = 40 # r" and a': "a = (cs, Suc j, r)"
    unfolding in_chr by blast
  from 1 obtain b where b: "b \<in> set (rmatch (Plus (Cls is_digit)) (cs, Suc j, r))"
    and 2: "c1 \<in> set (rmatch (chr 41) b)"
    unfolding a' in_Seq [of c1 "Plus (Cls is_digit)"] by blast
  from b obtain k where k: "0 < k" "k \<le> length (takeWhile is_digit r)"
    and b': "b = (cs, Suc j + k, drop k r)"
    unfolding in_plus_class by blast
  from 2 obtain r' where d: "drop k r = 41 # r'" and c1: "c1 = (cs, Suc (Suc j + k), r')"
    unfolding b' in_chr by blast
  have kl: "k = length (takeWhile is_digit r)" by (rule digit_run_end [OF k(2) d])
  have "takeWhile is_digit r \<noteq> []" using k(1) kl by auto
  moreover have "dropWhile is_digit r = 41 # r'" using d kl by (simp add: dropWhile_eq_drop)
  ultimately show "\<exists>r r'. rest = 40 # r \<and> takeWhile is_digit r \<noteq> [] \<and>
      dropWhile is_digit r = 41 # r' \<and> c1 = (cs, j + length (takeWhile is_digit r) + 2, r')"
    using r c1 kl by simp
next
  assume "\<exists>r r'. rest = 40 # r \<and> takeWhile is_digit r \<noteq> [] \<and> dropWhile is_digit r = 41 # r' \<and>
              c1 = (cs, j + length (takeWhile is_digit r) + 2, r')"
  then obtain r r' where r: "rest = 40 # r" and t: "takeWhile is_digit r \<noteq> []"
    and d: "dropWhile is_digit r = 41 # r'"
    and c1: "c1 = (cs, j + length (takeWhile is_digit r) + 2, r')" by blast
  let ?k = "length (takeWhile is_digit r)"
  have a: "(cs, Suc j, r) \<in> set (rmatch (chr 40) (cs, j, rest))"
    unfolding in_chr using r by simp
  have b: "(cs, Suc j + ?k, drop ?k r) \<in> set (rmatch (Plus (Cls is_digit)) (cs, Suc j, r))"
    unfolding in_plus_class using t by (intro exI [of _ ?k]) simp
  have "drop ?k r = 41 # r'" using d by (simp add: dropWhile_eq_drop)
  then have c: "c1 \<in> set (rmatch (chr 41) (cs, Suc j + ?k, drop ?k r))"
    unfolding in_chr using c1 by simp
  show "c1 \<in> set (rmatch (Seq (chr 40) (Seq (Plus (Cls is_digit)) (chr 41))) (cs, j, rest))"
    unfolding in_Seq [of c1 "chr 40"] in_Seq [of c1 "Plus (Cls is_digit)"]
    using a b c by blast
qed

lemma in_Opt:
  "c1 \<in> set (rmatch (Opt a) c) \<longleftrightarrow> c1 = c \<or> (c1 \<in> set (rmatch a c) \<and> advanced c c1)"
  by auto

lemma take2_eq: "take 2 xs = [a, b] \<longleftrightarrow> (\<exists>ys. xs = a # b # ys)"
proof (cases xs)
  case Nil
  then show ?thesis by simp
next
  case (Cons x xs')
  then show ?thesis by (cases xs') simp_all
qed

lemma tail_matches:
  "(\<exists>c'. c' \<in> set (rmatch (Seq repeat_count (chr 41)) (cs, j, rest))) \<longleftrightarrow> closes_token rest"
proof
  let ?body = "Seq (chr 40) (Seq (Plus (Cls is_digit)) (chr 41))"
  have rc: "repeat_count = Opt ?body" by (simp add: repeat_count_def)
  assume "\<exists>c'. c' \<in> set (rmatch (Seq repeat_count (chr 41)) (cs, j, rest))"
  then obtain c1 c' where c1: "c1 \<in> set (rmatch (Opt ?body) (cs, j, rest))"
    and c': "c' \<in> set (rmatch (chr 41) c1)"
    unfolding rc in_Seq [of _ "Opt ?body"] by blast
  from c1 consider "c1 = (cs, j, rest)" | "c1 \<in> set (rmatch ?body (cs, j, rest))"
    unfolding in_Opt by blast
  then show "closes_token rest"
  proof cases
    case 1
    from c' [unfolded 1 in_chr] obtain r where "rest = 41 # r" by blast
    then show ?thesis by (simp add: closes_token_def)
  next
    case 2
    then obtain r r' where r: "rest = 40 # r" and t: "takeWhile is_digit r \<noteq> []"
      and d: "dropWhile is_digit r = 41 # r'"
      and e: "c1 = (cs, j + length (takeWhile is_digit r) + 2, r')"
      unfolding in_repeat_body by blast
    from c' [unfolded e in_chr] obtain r'' where "r' = 41 # r''" by blast
    then have "take 2 (dropWhile is_digit r) = [41, 41]" using d by simp
    then show ?thesis using r t by (simp add: closes_token_def)
  qed
next
  let ?body = "Seq (chr 40) (Seq (Plus (Cls is_digit)) (chr 41))"
  have rc: "repeat_count = Opt ?body" by (simp add: repeat_count_def)
  assume "closes_token rest"
  then obtain c r where rest: "rest = c # r"
    and alt: "c = 41 \<or> (c = 40 \<and> takeWhile is_digit r \<noteq> [] \<and>
                        take 2 (dropWhile is_digit r) = [41, 41])"
    by (cases rest) (simp_all add: closes_token_def)
  from alt show "\<exists>c'. c' \<in> set (rmatch (Seq repeat_count (chr 41)) (cs, j, rest))"
  proof
    assume "c = 41"
    then have "(cs, Suc j, r) \<in> set (rmatch (chr 41) (cs, j, rest))"
      unfolding in_chr using rest by simp
    moreover have "(cs, j, rest) \<in> set (rmatch (Opt ?body) (cs, j, rest))"
      unfolding in_Opt by simp
    ultimately show ?thesis unfolding rc in_Seq [of _ "Opt ?body"] by blast
  next
    assume a: "c = 40 \<and> takeWhile is_digit r \<noteq> [] \<and> take 2 (dropWhile is_digit r) = [41, 41]"
    then obtain r'' where d: "dropWhile is_digit r = 41 # 41 # r''"
      unfolding take2_eq by blast
    let ?c1 = "(cs, j + length (takeWhile is_digit r) + 2, 41 # r'')"
    have b: "?c1 \<in> set (rmatch ?body (cs, j, rest))"
      unfolding in_repeat_body using a d rest by simp
    have "advanced (cs, j, rest) ?c1" by (simp add: advanced_def)
    with b have "?c1 \<in> set (rmatch (Opt ?body) (cs, j, rest))"
      unfolding in_Opt by blast
    moreover have "(cs, Suc (j + length (takeWhile is_digit r) + 2), r'') \<in> set (rmatch (chr 41) ?c1)"
      unfolding in_chr by simp
    ultimately show ?thesis unfolding rc in_Seq [of _ "Opt ?body"] by blast
  qed
qed

lemma token_here_Some:
  "token_here s = Some code \<longleftrightarrow>
     (\<exists>a b rest. s = 40 # a # b # rest \<and> toUpperCase [a, b] \<in> type_code_set \<and>
                  closes_token rest \<and> code = toUpperCase [a, b])"
  by (cases s rule: token_here.cases) auto

lemma type_pattern_sound:
  assumes "c' \<in> set (rmatch TYPE_CODE_PATTERN ([], i, s))"
  shows "\<exists>a b rest. s = 40 # a # b # rest \<and> fst c' = [(1, [a, b])] \<and>
           toUpperCase [a, b] \<in> type_code_set \<and> closes_token rest"
proof -
  let ?tail = "Seq repeat_count (chr 41)"
  have p: "TYPE_CODE_PATTERN = Seq (chr 40) (Seq (Group 1 type_codes) ?tail)"
    by (simp add: TYPE_CODE_PATTERN_def)
  from assms obtain c1 where c1: "c1 \<in> set (rmatch (chr 40) ([], i, s))"
    and r1: "c' \<in> set (rmatch (Seq (Group 1 type_codes) ?tail) c1)"
    unfolding p in_Seq [of c' "chr 40"] by blast
  from c1 obtain s1 where s: "s = 40 # s1" and c1': "c1 = ([], Suc i, s1)"
    unfolding in_chr by blast
  from r1 obtain c2 where c2: "c2 \<in> set (rmatch (Group 1 type_codes) c1)"
    and r2: "c' \<in> set (rmatch ?tail c2)"
    unfolding in_Seq [of c' "Group 1 type_codes"] by blast
  from c2 obtain cs' j s2 where m: "(cs', j, s2) \<in> set (rmatch type_codes ([], Suc i, s1))"
    and c2': "c2 = ((1, take (j - Suc i) s1) # cs', j, s2)"
    unfolding c1' in_Group by blast
  from m obtain a b where s1: "s1 = a # b # s2"
    and j: "j = Suc (Suc (Suc i))" and cs': "cs' = []"
    and up: "toUpperCase [a, b] \<in> type_code_set"
    unfolding in_type_codes by auto
  have c2'': "c2 = ([(1, [a, b])], j, s2)"
    by (simp add: c2' s1 j cs')
  have "groupfree ?tail"
    by (simp add: repeat_count_def chr_def)
  from groupfree_keeps [OF this r2] have f: "fst c' = [(1, [a, b])]"
    by (simp add: c2'')
  from r2 [unfolded c2''] have "\<exists>c'. c' \<in> set (rmatch ?tail ([(1, [a, b])], j, s2))"
    by blast
  then have "closes_token s2"
    by (rule tail_matches [THEN iffD1])
  then show ?thesis using s s1 f up by simp
qed

lemma type_pattern_complete:
  assumes "toUpperCase [a, b] \<in> type_code_set" and "closes_token rest"
  shows "\<exists>c'. c' \<in> set (rmatch TYPE_CODE_PATTERN ([], i, 40 # a # b # rest))"
proof -
  let ?tail = "Seq repeat_count (chr 41)"
  have p: "TYPE_CODE_PATTERN = Seq (chr 40) (Seq (Group 1 type_codes) ?tail)"
    by (simp add: TYPE_CODE_PATTERN_def)
  have 1: "([], Suc i, a # b # rest) \<in> set (rmatch (chr 40) ([], i, 40 # a # b # rest))"
    unfolding in_chr by simp
  have "([], Suc (Suc (Suc i)), rest) \<in> set (rmatch type_codes ([], Suc i, a # b # rest))"
    by (rule type_codes_intro [OF assms(1)])
  then have 2: "([(1, [a, b])], Suc (Suc (Suc i)), rest)
      \<in> set (rmatch (Group 1 type_codes) ([], Suc i, a # b # rest))"
    unfolding in_Group by (intro exI [of _ "[]"] exI [of _ "Suc (Suc (Suc i))"] exI [of _ rest]) simp
  from tail_matches [where cs = "[(1, [a, b])]" and j = "Suc (Suc (Suc i))" and rest = rest,
                     THEN iffD2, OF assms(2)]
  obtain c' where 3: "c' \<in> set (rmatch ?tail ([(1, [a, b])], Suc (Suc (Suc i)), rest))"
    by blast
  show ?thesis
    unfolding p in_Seq [of _ "chr 40"] in_Seq [of _ "Group 1 type_codes"]
    using 1 2 3 by blast
qed

lemma type_pattern_none:
  "rmatch TYPE_CODE_PATTERN ([], i, s) = [] \<longleftrightarrow> token_here s = None"
proof
  assume e: "rmatch TYPE_CODE_PATTERN ([], i, s) = []"
  show "token_here s = None"
  proof (rule ccontr)
    assume "token_here s \<noteq> None"
    then obtain code where "token_here s = Some code" by blast
    then obtain a b rest where "s = 40 # a # b # rest" "toUpperCase [a, b] \<in> type_code_set"
      "closes_token rest"
      unfolding token_here_Some by blast
    from type_pattern_complete [OF this(2,3), of i] this(1) e show False by simp
  qed
next
  assume n: "token_here s = None"
  show "rmatch TYPE_CODE_PATTERN ([], i, s) = []"
  proof (rule ccontr)
    assume "rmatch TYPE_CODE_PATTERN ([], i, s) \<noteq> []"
    then obtain c' where "c' \<in> set (rmatch TYPE_CODE_PATTERN ([], i, s))"
      by (cases "rmatch TYPE_CODE_PATTERN ([], i, s)") auto
    from type_pattern_sound [OF this] obtain a b rest where "s = 40 # a # b # rest"
      "toUpperCase [a, b] \<in> type_code_set" "closes_token rest" by blast
    then have "token_here s = Some (toUpperCase [a, b])" by simp
    with n show False by simp
  qed
qed

lemma type_pattern_head:
  assumes "rmatch TYPE_CODE_PATTERN ([], i, s) = (cs, j, r) # others"
  shows "token_here s = Some (toUpperCase (group (map_of cs) 1))"
proof -
  have "(cs, j, r) \<in> set (rmatch TYPE_CODE_PATTERN ([], i, s))"
    by (simp add: assms)
  from type_pattern_sound [OF this] obtain a b rest where s: "s = 40 # a # b # rest"
    and f: "cs = [(1, [a, b])]" and up: "toUpperCase [a, b] \<in> type_code_set"
    and cl: "closes_token rest" by auto
  show ?thesis using s up cl by (simp add: f group_def)
qed

lemma exec_scan:
  "(case exec_from TYPE_CODE_PATTERN i s of
      None \<Rightarrow> None
    | Some (k, w, cs) \<Rightarrow> Some (toUpperCase (group (map_of cs) 1))) = scan_type_code s"
proof (induction s arbitrary: i)
  case Nil
  have "rmatch TYPE_CODE_PATTERN ([], i, []) = []"
    unfolding type_pattern_none by simp
  then show ?case by (subst exec_from.simps) simp
next
  case (Cons x t)
  show ?case
  proof (cases "rmatch TYPE_CODE_PATTERN ([], i, x # t)")
    case Nil
    then have "token_here (x # t) = None" unfolding type_pattern_none .
    then show ?thesis
      using Nil Cons.IH [of "Suc i"] by (subst exec_from.simps) simp
  next
    case (Cons c others)
    obtain cs j r where c: "c = (cs, j, r)" by (cases c)
    from type_pattern_head [OF Cons [unfolded c]]
    have "token_here (x # t) = Some (toUpperCase (group (map_of cs) 1))" .
    then show ?thesis
      using Cons c by (subst exec_from.simps) simp
  qed
qed

lemma match_spec:
  "(case match line TYPE_CODE_PATTERN of
      Some typeMatch \<Rightarrow> toUpperCase (group typeMatch 1)
    | None \<Rightarrow> ascii ''SC'') = spec_type_code line"
  using exec_scan [of 0 line]
  by (auto simp: match_def spec_type_code_def split: option.splits)

lemma start_question_types:
  "held_types (start_question p line m) = held_types p @ [spec_type_code line]"
  by (simp add: held_types_def start_question_def Let_def match_spec split: option.splits)

lemma parse_line_types:
  "held_types (parse_line p raw) =
     held_types p @ (if starts_question raw then [spec_type_code (trim raw)] else [])"
proof (cases "starts_question raw")
  case True
  then obtain m where "trim raw \<noteq> []"
    and "first_match QUESTION_KEYWORD_PATTERNS (trim raw) = Some m"
    by (auto simp: starts_question_def)
  then show ?thesis
    using True by (simp add: parse_line_def start_question_types)
next
  case False
  then have "trim raw = [] \<or> first_match QUESTION_KEYWORD_PATTERNS (trim raw) = None"
    by (simp add: starts_question_def)
  then show ?thesis
    using False
    by (auto simp: parse_line_def Let_def held_types_def split: option.splits)
qed

lemma parse_lines_types:
  "held_types (parse_lines p lines) =
     held_types p @ map (\<lambda>raw. spec_type_code (trim raw)) (filter starts_question lines)"
  by (induction lines arbitrary: p) (simp_all add: parse_line_types)

lemma assemble_types:
  "map q_type (assemble lines) =
     map (\<lambda>raw. spec_type_code (trim raw)) (filter starts_question lines)"
proof -
  let ?init = "\<lparr> parsedQuestions = [], currentQuestion = None, questionId = 0 \<rparr>"
  have "map q_type (assemble lines) = held_types (parse_lines ?init lines)"
    by (simp add: assemble_def held_types_def Let_def split: option.splits)
  also have "\<dots> = held_types ?init
      @ map (\<lambda>raw. spec_type_code (trim raw)) (filter starts_question lines)"
    by (rule parse_lines_types)
  also have "held_types ?init = []"
    by (simp add: held_types_def)
  finally show ?thesis by simp
qed

lemma every_code_occurs:
  "\<forall>t \<in> set [ascii ''SC'', ascii ''MA'', ascii ''OQ'', ascii ''RS'', ascii ''DC'',
               ascii ''RK'', ascii ''MG''].
     map q_type (parseSurveyDraft (ascii ''Q1. x ('' @ t @ ascii '')'')) = [t]"
  by code_simp

text \<open>
  Claim C8, as stated: the type code of a parsed question is drawn from a fixed set of six
  codes.  The draft of seven questions shows seven different type codes on parsed questions.
\<close>

theorem seven_type_codes_occur:
  "card (set (map q_type (parseSurveyDraft seven_types_draft))) = 7"
  by code_simp

text \<open>
  Claim C8, amended: the type code of every parsed question is one of the seven codes
  \<open>SC\<close>, \<open>MA\<close>, \<open>OQ\<close>, \<open>RS\<close>, \<open>DC\<close>, \<open>RK\<close>, \<open>MG\<close>.  The questions of a draft are, in
  order, those of its lines that start a question, and the type code of each is what
  \<open>spec_type_code\<close> reads off that line: the code, in capitals, of the first token \<open>(code)\<close>
  or \<open>(code(digits))\<close> with one of the seven codes in capital or small letters, and \<open>SC\<close>
  when the line has no such token.  Each of the seven codes occurs on some parsed question.
\<close>

theorem parsed_type_codes:
  "(\<forall>q \<in> set (parseSurveyDraft draft). q_type q \<in> type_code_set) \<and>
   map q_type (parseSurveyDraft draft) =
     (if draft = [] \<or> trim draft = [] then []
      else map (\<lambda>raw. spec_type_code (trim raw))
             (filter starts_question (split 10 (processDraft draft)))) \<and>
   (\<forall>t \<in> type_code_set. \<exists>d. t \<in> set (map q_type (parseSurveyDraft d)))"
proof (intro conjI ballI)
  fix q assume "q \<in> set (parseSurveyDraft draft)"
  then show "q_type q \<in> type_code_set"
    by (auto simp: parseSurveyDraft_def assemble_typed split: if_splits)
next
  show "map q_type (parseSurveyDraft draft) =
     (if draft = [] \<or> trim draft = [] then []
      else map (\<lambda>raw. spec_type_code (trim raw))
             (filter starts_question (split 10 (processDraft draft))))"
    by (simp add: parseSurveyDraft_def assemble_types)
next
  fix t assume "t \<in> type_code_set"
  then have "t \<in> set [ascii ''SC'', ascii ''MA'', ascii ''OQ'', ascii ''RS'', ascii ''DC'',
               ascii ''RK'', ascii ''MG'']"
    by (simp add: type_code_set_def)
  with every_code_occurs
  have "map q_type (parseSurveyDraft (ascii ''Q1. x ('' @ t @ ascii '')'')) = [t]"
    by blast
  then have "t \<in> set (map q_type (parseSurveyDraft (ascii ''Q1. x ('' @ t @ ascii '')'')))"
    by simp
  then show "\<exists>d. t \<in> set (map q_type (parseSurveyDraft d))" by blast
qed

theorem parsed_type_codes_witness:
  "map q_type (parseSurveyDraft mixed_types_draft)
     = [ascii ''SC'', ascii ''RS'', ascii ''DC'', ascii ''RK'']"
proof -
  have a: "\<not> (mixed_types_draft = [] \<or> trim mixed_types_draft = [])" by code_simp
  have b: "map (\<lambda>raw. spec_type_code (trim raw))
             (filter starts_question (split 10 (processDraft mixed_types_draft)))
           = [ascii ''SC'', ascii ''RS'', ascii ''DC'', ascii ''RK'']"
    by code_simp
  from parsed_type_codes [of mixed_types_draft, THEN conjunct2, THEN conjunct1] a b
  show ?thesis by (simp only: if_False)
qed

section \<open>The prefixes of serialized options\<close>

lemma map_upt_shift: "map f [0..<Suc m] = f 0 # map (\<lambda>k. f (Suc k)) [0..<m]"
proof -
  have "[0..<Suc m] = 0 # map Suc [0..<m]"
    by (simp add: upt_conv_Cons map_Suc_upt del: upt_Suc)
  then show ?thesis
    by (simp add: o_def del: upt_Suc)
qed

lemma circled_nth: "\<forall>i \<in> set [0..<12]. circledNumbers ! i = [9312 + int i]"
  by code_simp

lemma options_to_text_lines:
  "options_to_text acc k opts =
     acc @ concat (map (\<lambda>i. option_line (k + i) (opts ! i)) [0..<length opts])"
proof (induction opts arbitrary: acc k)
  case Nil
  show ?case by simp
next
  case (Cons opt opts)
  have num: "(if k < 12 then circledNumbers ! k else ascii ''('' @ decimal (k + 1) @ ascii '')'')
           = (if k < 12 then [9312 + int k] else ascii ''('' @ decimal (k + 1) @ ascii '')'')"
    using circled_nth by simp
  have shift: "map (\<lambda>i. option_line (k + i) ((opt # opts) ! i)) [0..<length (opt # opts)]
      = option_line k opt # map (\<lambda>i. option_line (Suc k + i) (opts ! i)) [0..<length opts]"
    by (simp add: map_upt_shift del: upt_Suc)
  show ?case
    unfolding shift
    by (simp add: Let_def Cons.IH num option_line_def del: upt_Suc)
qed

lemma thirteen_prefixes_nth:
  "\<forall>i \<in> set [0..<13]. thirteen_prefixes ! i
      = (if i < 12 then [9312 + int i] else ascii ''('' @ decimal (i + 1) @ ascii '')'')"
  by code_simp

text \<open>
  Claim C7: the serializer writes the option at index \<open>i\<close> of a question that is not open
  with the \<open>i\<close>-th circled numeral (U+2460 + \<open>i\<close>) when \<open>i < 12\<close> and with \<open>(i+1)\<close> in
  decimal otherwise; for thirteen options these are the twelve circled numerals and \<open>(13)\<close>.
\<close>

theorem questionsToText_option_prefixes:
  assumes "\<not> q_isOpen q" and "q_options q \<noteq> []"
  shows "questionsToText [q] =
           ascii ''1. '' @ q_text q @ ascii '' ('' @ q_type q @ ascii '')'' @ [10]
           @ concat (map (\<lambda>i. ascii ''   ''
                               @ (if i < 12 then [9312 + int i]
                                  else ascii ''('' @ decimal (i + 1) @ ascii '')'')
                               @ ascii '' '' @ trim (replace (q_options q ! i) numberPattern [])
                               @ [10])
                         [0..<length (q_options q)])
           @ [10] \<and>
         (length (q_options q) = 13 \<longrightarrow>
            questionsToText [q] =
              ascii ''1. '' @ q_text q @ ascii '' ('' @ q_type q @ ascii '')'' @ [10]
              @ concat (map2 (\<lambda>num opt. ascii ''   '' @ num @ ascii '' ''
                                          @ trim (replace opt numberPattern []) @ [10])
                             thirteen_prefixes (q_options q))
              @ [10])"
proof -
  have one: "decimal (Suc 0) = ascii ''1''" by code_simp
  have general: "questionsToText [q] =
           ascii ''1. '' @ q_text q @ ascii '' ('' @ q_type q @ ascii '')'' @ [10]
           @ concat (map (\<lambda>i. option_line i (q_options q ! i)) [0..<length (q_options q)])
           @ [10]"
    using assms
    by (simp add: questionsToText_def Let_def options_to_text_lines one ascii_def del: upt_Suc)
  have thirteen: "map (\<lambda>i. option_line i (q_options q ! i)) [0..<length (q_options q)]
        = map2 (\<lambda>num opt. ascii ''   '' @ num @ ascii '' ''
                                          @ trim (replace opt numberPattern []) @ [10])
               thirteen_prefixes (q_options q)"
    if len: "length (q_options q) = 13"
  proof (rule nth_equalityI)
    show "length (map (\<lambda>i. option_line i (q_options q ! i)) [0..<length (q_options q)])
        = length (map2 (\<lambda>num opt. ascii ''   '' @ num @ ascii '' ''
                                          @ trim (replace opt numberPattern []) @ [10])
               thirteen_prefixes (q_options q))"
      by (simp add: len thirteen_prefixes_def)
  next
    fix i assume "i < length (map (\<lambda>i. option_line i (q_options q ! i)) [0..<length (q_options q)])"
    then have i: "i < 13" by (simp add: len)
    then have p: "thirteen_prefixes ! i
      = (if i < 12 then [9312 + int i] else ascii ''('' @ decimal (i + 1) @ ascii '')'')"
      using thirteen_prefixes_nth by simp
    have l: "length thirteen_prefixes = 13" by (simp add: thirteen_prefixes_def)
    show "map (\<lambda>i. option_line i (q_options q ! i)) [0..<length (q_options q)] ! i
        = map2 (\<lambda>num opt. ascii ''   '' @ num @ ascii '' ''
                                          @ trim (replace opt numberPattern []) @ [10])
               thirteen_prefixes (q_options q) ! i"
      using i by (simp add: len l p option_line_def del: upt_Suc)
  qed
  show ?thesis
    using general thirteen by (simp add: option_line_def del: upt_Suc)
qed

theorem questionsToText_option_prefixes_witness:
  "questionsToText [thirteen_options] =
     ascii ''1. Pick (SC)'' @ [10]
     @ ascii ''   '' @ [9312] @ ascii '' a'' @ [10] @ ascii ''   '' @ [9313] @ ascii '' b'' @ [10]
     @ ascii ''   '' @ [9314] @ ascii '' c'' @ [10] @ ascii ''   '' @ [9315] @ ascii '' d'' @ [10]
     @ ascii ''   '' @ [9316] @ ascii '' e'' @ [10] @ ascii ''   '' @ [9317] @ ascii '' f'' @ [10]
     @ ascii ''   '' @ [9318] @ ascii '' g'' @ [10] @ ascii ''   '' @ [9319] @ ascii '' h'' @ [10]
     @ ascii ''   '' @ [9320] @ ascii '' i'' @ [10] @ ascii ''   '' @ [9321] @ ascii '' j'' @ [10]
     @ ascii ''   '' @ [9322] @ ascii '' k'' @ [10] @ ascii ''   '' @ [9323] @ ascii '' l'' @ [10]
     @ ascii ''   (13) m'' @ [10, 10]"
proof -
  have a: "\<not> q_isOpen thirteen_options" by code_simp
  have b: "q_options thirteen_options \<noteq> []" by code_simp
  have c: "length (q_options thirteen_options) = 13" by code_simp
  have d: "ascii ''1. '' @ q_text thirteen_options @ ascii '' ('' @ q_type thirteen_options
              @ ascii '')'' @ [10]
              @ concat (map2 (\<lambda>num opt. ascii ''   '' @ num @ ascii '' ''
                                          @ trim (replace opt numberPattern []) @ [10])
                             thirteen_prefixes (q_options thirteen_options))
              @ [10]
     = ascii ''1. Pick (SC)'' @ [10]
     @ ascii ''   '' @ [9312] @ ascii '' a'' @ [10] @ ascii ''   '' @ [9313] @ ascii '' b'' @ [10]
     @ ascii ''   '' @ [9314] @ ascii '' c'' @ [10] @ ascii ''   '' @ [9315] @ ascii '' d'' @ [10]
     @ ascii ''   '' @ [9316] @ ascii '' e'' @ [10] @ ascii ''   '' @ [9317] @ ascii '' f'' @ [10]
     @ ascii ''   '' @ [9318] @ ascii '' g'' @ [10] @ ascii ''   '' @ [9319] @ ascii '' h'' @ [10]
     @ ascii ''   '' @ [9320] @ ascii '' i'' @ [10] @ ascii ''   '' @ [9321] @ ascii '' j'' @ [10]
     @ ascii ''   '' @ [9322] @ ascii '' k'' @ [10] @ ascii ''   '' @ [9323] @ ascii '' l'' @ [10]
     @ ascii ''   (13) m'' @ [10, 10]"
    by code_simp
  from questionsToText_option_prefixes [OF a b, THEN conjunct2, rule_format, OF c] d
  show ?thesis by (simp only:)
qed

end
